theory Spec2Isabelle
  imports Complex_Main "HOL-Library.Multiset"
begin

section \<open>Data model of src/src/main.ts\<close>

text \<open>
  JavaScript strings are sequences of UTF-16 code units; they are modelled as lists of
  code-unit values.  Integers of the game (coordinates, counters, seconds) are \<open>int\<close>.
  The DOM, audio and rendering adapters (\<open>cellEls\<close>, \<open>renderCell\<close>, \<open>setStatus\<close>,
  \<open>playSound\<close>, \<open>unlockAudio\<close>, ...) hold no engine state and are left out.
\<close>

type_synonym jsstring = "nat list"

record GameConfig =
  rows :: int
  cols :: int
  mines :: int

record Cell =
  isMine :: bool
  isOpen :: bool
  isFlagged :: bool
  adjacent :: int
  isWrongFlag :: bool

record LeaderboardEntry =
  name :: jsstring
  time :: int

type_synonym LeaderboardStore = "jsstring \<Rightarrow> LeaderboardEntry list option"

record Settings =
  soundEnabled :: bool
  nickname :: jsstring

record GameState =
  config :: GameConfig
  board :: "Cell list list"
  flags :: int
  openCount :: int
  minesPlaced :: bool
  isGameOver :: bool
  didWin :: bool
  timerId :: "nat option"
  startTime :: "int option"
  elapsed :: int
  activeRow :: int
  activeCol :: int
  hintsUsed :: int

text \<open>
  The module-level variables: the fields of \<open>state\<close> (flattened, by record extension)
  together with \<open>settings\<close> and \<open>leaderboard\<close>.
\<close>

record Globals = GameState +
  settings :: Settings
  leaderboard :: LeaderboardStore

text \<open>
  What one event handler reads from its environment: the raw draws behind each
  \<open>Math.random()\<close> call site, the values of \<open>Date.now()\<close> in \<open>startTimer\<close> and in
  \<open>updateTimer\<close>, and the id returned by \<open>window.setInterval\<close>.
\<close>

record Env =
  shuffleRandom :: "nat \<Rightarrow> nat"
  hintRowRandom :: nat
  hintColRandom :: nat
  hintPoolRandom :: nat
  startNow :: int
  tickNow :: int
  intervalId :: nat

definition LEADERBOARD_LIMIT :: nat where
  "LEADERBOARD_LIMIT = 5"

definition MAX_NICKNAME_LENGTH :: nat where
  "MAX_NICKNAME_LENGTH = 12"

definition DEFAULT_NICKNAME :: jsstring where
  "DEFAULT_NICKNAME = [0x73A9, 0x5BB6]"

section \<open>Board access\<close>

text \<open>
  \<open>state.board[r][c]\<close> followed by a field access: a \<open>TypeError\<close> is thrown when the row
  or the cell does not exist.  \<open>None\<close> stands for that uncaught exception throughout.
\<close>

definition cellAt :: "Cell list list \<Rightarrow> int \<Rightarrow> int \<Rightarrow> Cell option" where
  "cellAt b r c =
     (if 0 \<le> r \<and> r < int (length b) \<and> 0 \<le> c \<and> c < int (length (b ! nat r))
      then Some (b ! nat r ! nat c) else None)"

text \<open>Assignment to a field of an existing cell object; only used after \<open>cellAt\<close> succeeded.\<close>

definition setCell :: "Cell list list \<Rightarrow> int \<Rightarrow> int \<Rightarrow> Cell \<Rightarrow> Cell list list" where
  "setCell b r c x = b[nat r := (b ! nat r)[nat c := x]]"

text \<open>A \<open>for\<close> loop whose body may throw: the first exception ends the loop.\<close>

fun forEachM :: "('a \<Rightarrow> 's \<Rightarrow> 's option) \<Rightarrow> 'a list \<Rightarrow> 's \<Rightarrow> 's option" where
  "forEachM f [] s = Some s"
| "forEachM f (x # xs) s = (case f x s of None \<Rightarrow> None | Some s' \<Rightarrow> forEachM f xs s')"

text \<open>\<open>for row in 0..rows-1, for col in 0..cols-1\<close>, in row-major order.\<close>

definition gridCoords :: "int \<Rightarrow> int \<Rightarrow> (int \<times> int) list" where
  "gridCoords rs cs = List.product [0..rs - 1] [0..cs - 1]"

text \<open>\<open>for dr in -1..1, for dc in -1..1\<close>.\<close>

definition offsets :: "(int \<times> int) list" where
  "offsets = List.product [-1, 0, 1] [-1, 0, 1]"

text \<open>
  \<open>Math.floor(Math.random() * n)\<close> for an integer \<open>n\<close>: with a positive \<open>n\<close> any value of
  \<open>0..n-1\<close>, chosen by the raw draw \<open>r\<close>; with \<open>n \<le> 0\<close> a value of \<open>n..0\<close>.
\<close>

definition randomBelow :: "nat \<Rightarrow> int \<Rightarrow> int" where
  "randomBelow r n = (if 0 < n then int r mod n else - (int r mod (1 - n)))"

section \<open>Session creation\<close>

definition createEmptyBoard :: "int \<Rightarrow> int \<Rightarrow> Cell list list" where
  "createEmptyBoard rs cs =
     replicate (nat rs) (replicate (nat cs)
       \<lparr>isMine = False, isOpen = False, isFlagged = False, adjacent = 0, isWrongFlag = False\<rparr>)"

definition createInitialState :: "GameConfig \<Rightarrow> GameState" where
  "createInitialState cfg =
     \<lparr>config = cfg, board = createEmptyBoard (rows cfg) (cols cfg), flags = 0, openCount = 0,
      minesPlaced = False, isGameOver = False, didWin = False, timerId = None,
      startTime = None, elapsed = 0, activeRow = 0, activeCol = 0, hintsUsed = 0\<rparr>"

definition clamp :: "int \<Rightarrow> int \<Rightarrow> int \<Rightarrow> int" where
  "clamp v lo hi = min (max v lo) hi"

section \<open>Timer\<close>

definition updateTimer :: "Env \<Rightarrow> Globals \<Rightarrow> Globals" where
  "updateTimer env g =
     (case startTime g of
        None \<Rightarrow> g
      | Some t0 \<Rightarrow> g\<lparr>elapsed := clamp ((tickNow env - t0) div 1000) 0 999\<rparr>)"

definition startTimer :: "Env \<Rightarrow> Globals \<Rightarrow> Globals" where
  "startTimer env g =
     (if timerId g \<noteq> None then g
      else updateTimer env (g\<lparr>startTime := Some (startNow env), timerId := Some (intervalId env)\<rparr>))"

definition stopTimer :: "Globals \<Rightarrow> Globals" where
  "stopTimer g = (if timerId g = None then g else g\<lparr>timerId := None\<rparr>)"

definition resetTimerOnly :: "Env \<Rightarrow> Globals \<Rightarrow> Globals" where
  "resetTimerOnly env g =
     (let g1 = g\<lparr>elapsed := 0\<rparr>
      in if timerId g1 \<noteq> None then g1\<lparr>startTime := Some (startNow env)\<rparr>
         else g1\<lparr>startTime := None\<rparr>)"

text \<open>
  \<open>startNewGame\<close>: the timer is stopped and \<open>state\<close> is replaced wholesale; \<open>settings\<close> and
  \<open>leaderboard\<close> stay.  \<open>resetTimerOnly\<close> then finds \<open>timerId = null\<close>.
\<close>

definition startNewGame :: "Env \<Rightarrow> GameConfig \<Rightarrow> Globals \<Rightarrow> Globals" where
  "startNewGame env cfg g =
     resetTimerOnly env (GameState.extend (createInitialState cfg) (GameState.more (stopTimer g)))"

section \<open>Leaderboard: recording a win\<close>

fun digitsOf :: "nat \<Rightarrow> nat list" where
  "digitsOf n = (if n < 10 then [48 + n] else digitsOf (n div 10) @ [48 + n mod 10])"

declare digitsOf.simps [simp del]

text \<open>Template-literal conversion of an integer to its decimal string.\<close>

definition showInt :: "int \<Rightarrow> jsstring" where
  "showInt i = (if i < 0 then 45 # digitsOf (nat (- i)) else digitsOf (nat i))"

definition getConfigKey :: "GameConfig \<Rightarrow> jsstring" where
  "getConfigKey cfg = showInt (cols cfg) @ [120] @ showInt (rows cfg) @ [45] @ showInt (mines cfg)"

text \<open>White space and line terminators removed by \<open>String.prototype.trim\<close>.\<close>

definition isWhiteSpace :: "nat \<Rightarrow> bool" where
  "isWhiteSpace u \<longleftrightarrow>
     u \<in> {0x9, 0xA, 0xB, 0xC, 0xD, 0x20, 0xA0, 0x1680, 0x2028, 0x2029, 0x202F, 0x205F, 0x3000, 0xFEFF}
     \<or> (0x2000 \<le> u \<and> u \<le> 0x200A)"

definition trim :: "jsstring \<Rightarrow> jsstring" where
  "trim s = rev (dropWhile isWhiteSpace (rev (dropWhile isWhiteSpace s)))"

text \<open>\<open>normalizeNickname\<close> on a value that is a string (\<open>Some\<close>) or anything else (\<open>None\<close>).\<close>

definition normalizeNickname :: "jsstring option \<Rightarrow> jsstring" where
  "normalizeNickname v =
     (case v of
        None \<Rightarrow> DEFAULT_NICKNAME
      | Some s \<Rightarrow> (let trimmed = trim s
                  in if trimmed = [] then DEFAULT_NICKNAME else take MAX_NICKNAME_LENGTH trimmed))"

text \<open>\<open>entries.sort((a, b) => a.time - b.time)\<close>: a stable sort by time.\<close>

definition sortByTime :: "LeaderboardEntry list \<Rightarrow> LeaderboardEntry list" where
  "sortByTime es = sort_key time es"

definition recordWin :: "int \<Rightarrow> Globals \<Rightarrow> Globals" where
  "recordWin t g =
     (let key = getConfigKey (config g);
          records = (case leaderboard g key of None \<Rightarrow> [] | Some rs \<Rightarrow> rs);
          pushed = records @ [\<lparr>name = normalizeNickname (Some (nickname (settings g))), time = t\<rparr>]
      in g\<lparr>leaderboard := (leaderboard g)(key \<mapsto> take LEADERBOARD_LIMIT (sortByTime pushed))\<rparr>)"

section \<open>Reveal engine\<close>

definition revealCell :: "Cell \<Rightarrow> Cell" where
  "revealCell cell =
     (if isMine cell then cell\<lparr>isOpen := True\<rparr>
      else if isFlagged cell then cell\<lparr>isOpen := True, isWrongFlag := True\<rparr>
      else cell)"

definition revealStep :: "int \<times> int \<Rightarrow> Globals \<Rightarrow> Globals option" where
  "revealStep = (\<lambda>(row, col) g.
     case cellAt (board g) row col of
       None \<Rightarrow> None
     | Some cell \<Rightarrow> Some (g\<lparr>board := setCell (board g) row col (revealCell cell)\<rparr>))"

definition revealMines :: "Globals \<Rightarrow> Globals option" where
  "revealMines g = forEachM revealStep (gridCoords (rows (config g)) (cols (config g))) g"

definition endGame :: "bool \<Rightarrow> Globals \<Rightarrow> Globals option" where
  "endGame won g =
     (let g1 = stopTimer (g\<lparr>isGameOver := True, didWin := won\<rparr>)
      in if won then Some (recordWin (elapsed g1) g1) else revealMines g1)"

definition checkWin :: "Globals \<Rightarrow> (bool \<times> Globals) option" where
  "checkWin g =
     (let safeCells = rows (config g) * cols (config g) - mines (config g)
      in if openCount g \<ge> safeCells
         then (case endGame True g of None \<Rightarrow> None | Some g' \<Rightarrow> Some (True, g'))
         else Some (False, g))"

text \<open>
  One neighbour examined by \<open>floodOpen\<close> for the popped coordinate \<open>(row, col)\<close>.  The stack
  is a list whose head is the top: \<open>push\<close> is \<open>#\<close>, \<open>pop\<close> takes the head.
\<close>

definition floodVisit ::
  "int \<times> int \<Rightarrow> int \<times> int \<Rightarrow> Globals \<times> (int \<times> int) list \<Rightarrow> (Globals \<times> (int \<times> int) list) option" where
  "floodVisit = (\<lambda>(row, col) (dr, dc) (g, stack).
     let nr = row + dr; nc = col + dc
     in if nr < 0 \<or> nr \<ge> rows (config g) \<or> nc < 0 \<or> nc \<ge> cols (config g) then Some (g, stack)
        else case cellAt (board g) nr nc of
               None \<Rightarrow> None
             | Some neighbor \<Rightarrow>
                 if isOpen neighbor \<or> isFlagged neighbor \<or> isMine neighbor then Some (g, stack)
                 else Some (g\<lparr>board := setCell (board g) nr nc (neighbor\<lparr>isOpen := True\<rparr>),
                              openCount := openCount g + 1\<rparr>,
                            if adjacent neighbor = 0 then (nr, nc) # stack else stack))"

section \<open>Counting cells\<close>

text \<open>Number of cells of the board that satisfy a predicate.\<close>

definition countCells :: "(Cell \<Rightarrow> bool) \<Rightarrow> Cell list list \<Rightarrow> nat" where
  "countCells P b = length (filter P (concat b))"

definition closedCount :: "Cell list list \<Rightarrow> nat" where
  "closedCount b = countCells (\<lambda>cell. \<not> isOpen cell) b"

text \<open>The board has the dimensions of the configuration, as \<open>createInitialState\<close> builds it.\<close>

definition wfBoard :: "GameConfig \<Rightarrow> Cell list list \<Rightarrow> bool" where
  "wfBoard cfg b \<longleftrightarrow> map length b = replicate (nat (rows cfg)) (nat (cols cfg))"

subsection \<open>Facts about board access and loops, used by the termination proof of the flood fill\<close>

lemma cellAt_Some_iff:
  "cellAt b r c = Some x \<longleftrightarrow>
     0 \<le> r \<and> nat r < length b \<and> 0 \<le> c \<and> nat c < length (b ! nat r) \<and> x = b ! nat r ! nat c"
  by (auto simp: cellAt_def)

lemma cellAt_setCell:
  assumes "cellAt b r c = Some x"
  shows "cellAt (setCell b r c y) r' c' = (if r' = r \<and> c' = c then Some y else cellAt b r' c')"
  using assms
  by (auto simp: cellAt_def setCell_def nth_list_update split: if_splits)

lemma length_setCell [simp]: "length (setCell b r c y) = length b"
  by (simp add: setCell_def)

lemma map_length_setCell [simp]: "map length (setCell b r c y) = map length b"
proof (cases "nat r < length b")
  case True
  then show ?thesis
    by (intro nth_equalityI) (auto simp: setCell_def nth_list_update)
next
  case False
  then show ?thesis by (simp add: setCell_def list_update_beyond)
qed

lemma count_update:
  assumes "j < length xs"
  shows "length (filter P (xs[j := y])) + (if P (xs ! j) then 1 else 0)
         = length (filter P xs) + (if P y then 1 else 0)"
proof -
  have a: "xs = take j xs @ xs ! j # drop (Suc j) xs"
    using assms by (simp add: id_take_nth_drop)
  have b: "xs[j := y] = take j xs @ y # drop (Suc j) xs"
    using assms by (simp add: upd_conv_take_nth_drop)
  have "length (filter P xs) = length (filter P (take j xs)) + (if P (xs ! j) then 1 else 0) + length (filter P (drop (Suc j) xs))"
    by (subst a) simp
  moreover have "length (filter P (xs[j := y])) = length (filter P (take j xs)) + (if P y then 1 else 0) + length (filter P (drop (Suc j) xs))"
    by (subst b) simp
  ultimately show ?thesis by simp
qed

lemma countCells_setCell:
  assumes "cellAt b r c = Some x"
  shows "countCells P (setCell b r c y) + (if P x then 1 else 0) = countCells P b + (if P y then 1 else 0)"
proof -
  let ?i = "nat r" and ?j = "nat c"
  from assms have i: "?i < length b" and j: "?j < length (b ! ?i)" and x: "x = b ! ?i ! ?j"
    by (auto simp: cellAt_Some_iff)
  have a: "b = take ?i b @ (b ! ?i) # drop (Suc ?i) b"
    using i by (simp add: id_take_nth_drop)
  have u: "setCell b r c y = take ?i b @ ((b ! ?i)[?j := y]) # drop (Suc ?i) b"
    using i by (simp add: setCell_def upd_conv_take_nth_drop)
  have "countCells P b = length (filter P (concat (take ?i b))) + length (filter P (b ! ?i))
        + length (filter P (concat (drop (Suc ?i) b)))"
    unfolding countCells_def by (subst a) simp
  moreover have "countCells P (setCell b r c y) = length (filter P (concat (take ?i b)))
        + length (filter P ((b ! ?i)[?j := y])) + length (filter P (concat (drop (Suc ?i) b)))"
    unfolding countCells_def u by simp
  ultimately show ?thesis
    using count_update[OF j, of P y] x by simp
qed

lemma forEachM_inv:
  assumes "forEachM f xs s = Some s'" "I s"
    and "\<And>x a b. x \<in> set xs \<Longrightarrow> I a \<Longrightarrow> f x a = Some b \<Longrightarrow> I b"
  shows "I s'"
  using assms
proof (induction xs arbitrary: s)
  case Nil
  then show ?case by simp
next
  case (Cons x xs)
  from Cons.prems(1) obtain m where m: "f x s = Some m" and r: "forEachM f xs m = Some s'"
    by (auto split: option.splits)
  have "I m" using Cons.prems(2,3) m by auto
  then show ?case using Cons.IH[OF r] Cons.prems(3) by auto
qed

lemma forEachM_total:
  assumes "I s"
    and "\<And>x a. x \<in> set xs \<Longrightarrow> I a \<Longrightarrow> \<exists>b. f x a = Some b \<and> I b"
  shows "\<exists>s'. forEachM f xs s = Some s' \<and> I s'"
  using assms
proof (induction xs arbitrary: s)
  case Nil
  then show ?case by simp
next
  case (Cons x xs)
  from Cons.prems obtain m where m: "f x s = Some m" "I m"
    by (meson list.set_intros(1))
  have "\<exists>s'. forEachM f xs m = Some s' \<and> I s'"
    using Cons.IH[OF m(2)] Cons.prems(2) by auto
  then show ?case using m by simp
qed

lemma wfBoard_cellAt:
  assumes "wfBoard cfg b"
  shows "cellAt b r c \<noteq> None \<longleftrightarrow> 0 \<le> r \<and> r < rows cfg \<and> 0 \<le> c \<and> c < cols cfg"
proof -
  have l: "length b = nat (rows cfg)"
    using assms unfolding wfBoard_def by (metis length_map length_replicate)
  have "length (b ! i) = nat (cols cfg)" if "i < length b" for i
    using assms that unfolding wfBoard_def by (metis l nth_map nth_replicate)
  then show ?thesis
    using l by (auto simp: cellAt_def)
qed

lemma wfBoard_setCell [simp]: "wfBoard cfg (setCell b r c y) = wfBoard cfg b"
  by (simp add: wfBoard_def)

lemma floodVisit_cases:
  assumes "floodVisit (row, col) (dr, dc) (g, st) = Some (g', st')"
  shows "(g' = g \<and> st' = st) \<or>
         (\<exists>x. cellAt (board g) (row + dr) (col + dc) = Some x \<and>
              \<not> isOpen x \<and> \<not> isFlagged x \<and> \<not> isMine x \<and>
              g' = g\<lparr>board := setCell (board g) (row + dr) (col + dc) (x\<lparr>isOpen := True\<rparr>),
                     openCount := openCount g + 1\<rparr> \<and>
              st' = (if adjacent x = 0 then (row + dr, col + dc) # st else st))"
proof (cases "cellAt (board g) (row + dr) (col + dc)")
  case None
  with assms show ?thesis
    by (simp add: floodVisit_def Let_def split: if_splits)
next
  case (Some x)
  with assms show ?thesis
    by (simp add: floodVisit_def Let_def split: if_splits)
qed

lemma floodVisit_measure:
  assumes "floodVisit p d (g, st) = Some (g', st')"
  shows "2 * closedCount (board g') + length st' \<le> 2 * closedCount (board g) + length st"
proof -
  obtain row col dr dc where p: "p = (row, col)" "d = (dr, dc)"
    by (cases p, cases d) auto
  from floodVisit_cases[OF assms[unfolded p]] show ?thesis
  proof
    assume "g' = g \<and> st' = st"
    then show ?thesis by simp
  next
    assume "\<exists>x. cellAt (board g) (row + dr) (col + dc) = Some x \<and>
              \<not> isOpen x \<and> \<not> isFlagged x \<and> \<not> isMine x \<and>
              g' = g\<lparr>board := setCell (board g) (row + dr) (col + dc) (x\<lparr>isOpen := True\<rparr>),
                     openCount := openCount g + 1\<rparr> \<and>
              st' = (if adjacent x = 0 then (row + dr, col + dc) # st else st)"
    then obtain x where x: "cellAt (board g) (row + dr) (col + dc) = Some x" "\<not> isOpen x"
      and g': "board g' = setCell (board g) (row + dr) (col + dc) (x\<lparr>isOpen := True\<rparr>)"
      and st': "length st' \<le> length st + 1"
      by auto
    have "closedCount (board g') + 1 = closedCount (board g)"
      using countCells_setCell[OF x(1), of "\<lambda>cell. \<not> isOpen cell" "x\<lparr>isOpen := True\<rparr>"] x(2) g'
      by (simp add: closedCount_def)
    then show ?thesis using st' by linarith
  qed
qed

function floodLoop :: "Globals \<times> (int \<times> int) list \<Rightarrow> Globals option" where
  "floodLoop (g, []) = Some g"
| "floodLoop (g, p # rest) =
     (case forEachM (floodVisit p) offsets (g, rest) of
        None \<Rightarrow> None
      | Some next \<Rightarrow> floodLoop next)"
  by pat_completeness auto
termination
proof (relation "measure (\<lambda>(g, st). 2 * closedCount (board g) + length st)")
  show "wf (measure (\<lambda>(g, st). 2 * closedCount (board g) + length st))"
    by simp
next
  fix g :: Globals and p rest "next"
  assume a: "forEachM (floodVisit p) offsets (g, rest) = Some next"
  have "(\<lambda>(g', st'). 2 * closedCount (board g') + length st' \<le> 2 * closedCount (board g) + length rest) next"
    by (rule forEachM_inv[OF a]) (auto dest: floodVisit_measure)
  then show "(next, (g, p # rest)) \<in> measure (\<lambda>(g, st). 2 * closedCount (board g) + length st)"
    by (auto split: prod.splits)
qed

definition floodOpen :: "Globals \<Rightarrow> int \<Rightarrow> int \<Rightarrow> Globals option" where
  "floodOpen g startRow startCol = floodLoop (g, [(startRow, startCol)])"

definition openCell :: "Globals \<Rightarrow> int \<Rightarrow> int \<Rightarrow> (bool \<times> Globals) option" where
  "openCell g row col =
     (case cellAt (board g) row col of
        None \<Rightarrow> None
      | Some cell \<Rightarrow>
          if isOpen cell \<or> isFlagged cell then Some (False, g)
          else let g1 = g\<lparr>board := setCell (board g) row col (cell\<lparr>isOpen := True\<rparr>),
                           openCount := openCount g + 1\<rparr>
               in if isMine cell
                  then (case endGame False g1 of None \<Rightarrow> None | Some g2 \<Rightarrow> Some (False, g2))
                  else if adjacent cell = 0
                  then (case floodOpen g1 row col of None \<Rightarrow> None | Some g2 \<Rightarrow> Some (True, g2))
                  else Some (True, g1))"

section \<open>Board generator\<close>

text \<open>The first loop of \<open>placeMines\<close>: the bounds-clipped 3x3 block, as linear indices.\<close>

definition exclusionsAround :: "GameConfig \<Rightarrow> int \<Rightarrow> int \<Rightarrow> int set" where
  "exclusionsAround cfg excludeRow excludeCol =
     fold (\<lambda>(dr, dc) exclusions.
             let nr = excludeRow + dr; nc = excludeCol + dc
             in if nr \<ge> 0 \<and> nr < rows cfg \<and> nc \<ge> 0 \<and> nc < cols cfg
                then insert (nr * cols cfg + nc) exclusions else exclusions)
          offsets {}"

text \<open>The exclusion set after the fallback test.\<close>

definition exclusionsFor :: "GameConfig \<Rightarrow> int \<Rightarrow> int \<Rightarrow> int set" where
  "exclusionsFor cfg excludeRow excludeCol =
     (let exclusions = exclusionsAround cfg excludeRow excludeCol
      in if rows cfg * cols cfg - int (card exclusions) < mines cfg
         then {excludeRow * cols cfg + excludeCol} else exclusions)"

definition candidatePositions :: "GameConfig \<Rightarrow> int set \<Rightarrow> int list" where
  "candidatePositions cfg exclusions =
     filter (\<lambda>index. index \<notin> exclusions)
       (map (\<lambda>(row, col). row * cols cfg + col) (gridCoords (rows cfg) (cols cfg)))"

text \<open>
  The Fisher-Yates loop, \<open>i\<close> from \<open>length - 1\<close> down to \<open>1\<close>; \<open>j\<close> is drawn from \<open>0..i\<close>, so both
  indices of the swap are inside the array.
\<close>

definition shuffle :: "(nat \<Rightarrow> nat) \<Rightarrow> int list \<Rightarrow> int list" where
  "shuffle rnd positions =
     fold (\<lambda>i ps. let j = nat (randomBelow (rnd i) (int i + 1)) in ps[i := ps ! j, j := ps ! i])
          (rev [1..<length positions]) positions"

text \<open>
  The body of the loop that marks the mines.  \<open>positions[i]\<close> beyond the array is
  \<open>undefined\<close>, its row and column are \<open>NaN\<close> and the board access throws.  An index that
  exists is non-negative and \<open>cols\<close> is positive, so \<open>Math.floor(index / cols)\<close> and
  \<open>index % cols\<close> are \<open>div\<close> and \<open>mod\<close>.
\<close>

definition placeMineAt :: "GameConfig \<Rightarrow> int list \<Rightarrow> int \<Rightarrow> Globals \<Rightarrow> Globals option" where
  "placeMineAt cfg positions i g =
     (if nat i < length positions
      then let index = positions ! nat i;
               row = index div cols cfg;
               col = index mod cols cfg
           in case cellAt (board g) row col of
                None \<Rightarrow> None
              | Some cell \<Rightarrow> Some (g\<lparr>board := setCell (board g) row col (cell\<lparr>isMine := True\<rparr>)\<rparr>)
      else None)"

definition countStep :: "Globals \<Rightarrow> int \<Rightarrow> int \<Rightarrow> int \<times> int \<Rightarrow> int \<Rightarrow> int option" where
  "countStep g row col = (\<lambda>(dr, dc) count.
     if dr = 0 \<and> dc = 0 then Some count
     else let nr = row + dr; nc = col + dc
          in if nr < 0 \<or> nr \<ge> rows (config g) \<or> nc < 0 \<or> nc \<ge> cols (config g) then Some count
             else case cellAt (board g) nr nc of
                    None \<Rightarrow> None
                  | Some cell \<Rightarrow> Some (if isMine cell then count + 1 else count))"

definition countAdjacentMines :: "Globals \<Rightarrow> int \<Rightarrow> int \<Rightarrow> int option" where
  "countAdjacentMines g row col = forEachM (countStep g row col) offsets 0"

definition adjacentStep :: "int \<times> int \<Rightarrow> Globals \<Rightarrow> Globals option" where
  "adjacentStep = (\<lambda>(row, col) g.
     case cellAt (board g) row col of
       None \<Rightarrow> None
     | Some cell \<Rightarrow>
         if isMine cell then Some g
         else case countAdjacentMines g row col of
                None \<Rightarrow> None
              | Some n \<Rightarrow> Some (g\<lparr>board := setCell (board g) row col (cell\<lparr>adjacent := n\<rparr>)\<rparr>))"

definition placeMines :: "Env \<Rightarrow> Globals \<Rightarrow> int \<Rightarrow> int \<Rightarrow> Globals option" where
  "placeMines env g excludeRow excludeCol =
     (let cfg = config g;
          exclusions = exclusionsFor cfg excludeRow excludeCol;
          positions = shuffle (shuffleRandom env) (candidatePositions cfg exclusions)
      in case forEachM (placeMineAt cfg positions) [0..mines cfg - 1] g of
           None \<Rightarrow> None
         | Some g1 \<Rightarrow>
             (case forEachM adjacentStep (gridCoords (rows cfg) (cols cfg)) g1 of
                None \<Rightarrow> None
              | Some g2 \<Rightarrow> Some (g2\<lparr>minesPlaced := True\<rparr>)))"

section \<open>Event handlers\<close>

definition handleCellClick :: "Env \<Rightarrow> Globals \<Rightarrow> int \<Rightarrow> int \<Rightarrow> Globals option" where
  "handleCellClick env g row col =
     (if isGameOver g then Some g
      else case cellAt (board g) row col of
             None \<Rightarrow> None
           | Some cell \<Rightarrow>
               if isOpen cell \<or> isFlagged cell then Some g
               else case (if \<not> minesPlaced g
                          then map_option (startTimer env) (placeMines env g row col)
                          else Some g) of
                      None \<Rightarrow> None
                    | Some g1 \<Rightarrow>
                        (case openCell g1 row col of
                           None \<Rightarrow> None
                         | Some (opened, g2) \<Rightarrow>
                             if isGameOver g2 then Some g2
                             else map_option snd (checkWin g2)))"

definition toggleFlag :: "Globals \<Rightarrow> int \<Rightarrow> int \<Rightarrow> Globals option" where
  "toggleFlag g row col =
     (if isGameOver g then Some g
      else case cellAt (board g) row col of
             None \<Rightarrow> None
           | Some cell \<Rightarrow>
               if isOpen cell then Some g
               else let flagged = \<not> isFlagged cell
                    in Some (g\<lparr>board := setCell (board g) row col (cell\<lparr>isFlagged := flagged\<rparr>),
                              flags := flags g + (if flagged then 1 else - 1)\<rparr>))"

section \<open>Hint selector\<close>

definition hintScan ::
  "Globals \<Rightarrow> int \<times> int \<Rightarrow> (int \<times> int) list \<times> (int \<times> int) list
     \<Rightarrow> ((int \<times> int) list \<times> (int \<times> int) list) option" where
  "hintScan g = (\<lambda>(row, col) (zeros, candidates).
     case cellAt (board g) row col of
       None \<Rightarrow> None
     | Some cell \<Rightarrow>
         if isOpen cell \<or> isFlagged cell \<or> isMine cell then Some (zeros, candidates)
         else if adjacent cell = 0 then Some (zeros @ [(row, col)], candidates)
         else Some (zeros, candidates @ [(row, col)]))"

text \<open>The outer \<open>option\<close> is the exception, the inner one the \<open>null\<close> result.\<close>

definition findHintCell :: "Env \<Rightarrow> Globals \<Rightarrow> (int \<times> int) option option" where
  "findHintCell env g =
     (case forEachM (hintScan g) (gridCoords (rows (config g)) (cols (config g))) ([], []) of
        None \<Rightarrow> None
      | Some (zeros, candidates) \<Rightarrow>
          (let pool = (if length zeros > 0 then zeros else candidates)
           in if length pool = 0 then Some None
              else Some (Some (pool ! nat (randomBelow (hintPoolRandom env) (int (length pool)))))))"

definition handleHint :: "Env \<Rightarrow> Globals \<Rightarrow> Globals option" where
  "handleHint env g =
     (if isGameOver g then Some g
      else if \<not> minesPlaced g
      then (let row = randomBelow (hintRowRandom env) (rows (config g));
                col = randomBelow (hintColRandom env) (cols (config g))
            in case handleCellClick env g row col of
                 None \<Rightarrow> None
               | Some g1 \<Rightarrow> Some (g1\<lparr>hintsUsed := hintsUsed g1 + 1\<rparr>))
      else case findHintCell env g of
             None \<Rightarrow> None
           | Some None \<Rightarrow> Some g
           | Some (Some hint) \<Rightarrow> Some (g\<lparr>hintsUsed := hintsUsed g + 1\<rparr>))"

section \<open>Leaderboard: loading the stored records\<close>

text \<open>
  A JavaScript number is a finite value or one of \<open>NaN\<close>, \<open>Infinity\<close>, \<open>-Infinity\<close>; a value
  returned by \<open>JSON.parse\<close> is \<open>null\<close>, a boolean, a number, a string, an array or an object,
  the object given by its \<open>Object.entries\<close>.  \<open>localStorage.getItem\<close> throws or returns
  \<open>null\<close> or a string.
\<close>

datatype jsnum = Finite rat | NaN | PosInfinity | NegInfinity















section \<open>Program start\<close>

text \<open>
  The module variables when the page loads with an empty \<open>localStorage\<close>: \<open>loadSettings\<close>
  and \<open>loadLeaderboard\<close> return their defaults, and \<open>init\<close> starts a game.
\<close>

definition freshGlobals :: "GameConfig \<Rightarrow> Globals" where
  "freshGlobals cfg =
     GameState.extend (createInitialState cfg)
       \<lparr>settings = \<lparr>soundEnabled = True, nickname = DEFAULT_NICKNAME\<rparr>,
        leaderboard = Map.empty\<rparr>"

text \<open>The smallest custom configuration of \<open>getConfigFromUI\<close> (6 columns, 6 rows), with 34 mines.\<close>

definition customConfig :: GameConfig where
  "customConfig = \<lparr>rows = 6, cols = 6, mines = 34\<rparr>"


text \<open>A custom configuration whose safe cells are exactly a corner's 2x2 block: 6x6, 32 mines.\<close>

definition packedConfig :: GameConfig where
  "packedConfig = \<lparr>rows = 6, cols = 6, mines = 32\<rparr>"

text \<open>\<open>difficulties.easy\<close>.\<close>

definition easyConfig :: GameConfig where
  "easyConfig = \<lparr>rows = 9, cols = 9, mines = 10\<rparr>"

text \<open>An environment whose shuffle draws pick \<open>j = i\<close> at every step.\<close>

definition sampleEnv :: Env where
  "sampleEnv = \<lparr>shuffleRandom = (\<lambda>i. i), hintRowRandom = 0, hintColRandom = 0,
                 hintPoolRandom = 0, startNow = 1000, tickNow = 1000, intervalId = 1\<rparr>"

text \<open>
  A hand-made 6x6 position: a mine at (0,0), a flagged safe cell at (0,1), a closed safe
  cell with one neighbouring mine at (1,1); every other cell is closed, safe, with no
  neighbouring mine recorded.
\<close>

definition sampleBoardState :: Globals where
  "sampleBoardState =
     (freshGlobals customConfig)
       \<lparr>board := setCell (setCell (setCell (createEmptyBoard 6 6)
            0 0 \<lparr>isMine = True, isOpen = False, isFlagged = False, adjacent = 0, isWrongFlag = False\<rparr>)
            0 1 \<lparr>isMine = False, isOpen = False, isFlagged = True, adjacent = 1, isWrongFlag = False\<rparr>)
            1 1 \<lparr>isMine = False, isOpen = False, isFlagged = False, adjacent = 1, isWrongFlag = False\<rparr>\<rparr>"

text \<open>
  The 6x6 session with 34 mines after flagging (5,5) and then revealing (0,0), when the
  shuffle leaves the candidates in order (\<open>sampleEnv\<close>): the mines lie everywhere except at
  (0,0), which is open and shows 3, and at (5,5), which is flagged.
\<close>

definition hintlessState :: Globals where
  "hintlessState =
     (freshGlobals customConfig)
       \<lparr>board := setCell (setCell
            (replicate 6 (replicate 6
               \<lparr>isMine = True, isOpen = False, isFlagged = False, adjacent = 0, isWrongFlag = False\<rparr>))
            0 0 \<lparr>isMine = False, isOpen = True, isFlagged = False, adjacent = 3, isWrongFlag = False\<rparr>)
            5 5 \<lparr>isMine = False, isOpen = False, isFlagged = True, adjacent = 3, isWrongFlag = False\<rparr>,
        flags := 1, openCount := 1, minesPlaced := True,
        timerId := Some 1, startTime := Some 1000\<rparr>"

section \<open>Auxiliary notions for the proofs\<close>

text \<open>
  \<open>opensOnly g g'\<close>: \<open>g'\<close> is \<open>g\<close> except that closed, unflagged, safe cells may have been
  opened, and \<open>openCount\<close> grew by the number of cells opened.
\<close>

definition opensOnly :: "Globals \<Rightarrow> Globals \<Rightarrow> bool" where
  "opensOnly g g' \<longleftrightarrow>
     (\<exists>b' n. g' = g\<lparr>board := b', openCount := n\<rparr>) \<and>
     map length (board g') = map length (board g) \<and>
     (\<forall>r c x. cellAt (board g) r c = Some x \<longrightarrow>
        cellAt (board g') r c = Some x \<or>
        (\<not> isOpen x \<and> \<not> isFlagged x \<and> \<not> isMine x \<and>
         cellAt (board g') r c = Some (x\<lparr>isOpen := True\<rparr>))) \<and>
     openCount g' - int (countCells isOpen (board g')) = openCount g - int (countCells isOpen (board g))"

text \<open>The bounds test \<open>nr >= 0 && nr < rows && nc >= 0 && nc < cols\<close>.\<close>

definition inBounds :: "GameConfig \<Rightarrow> int \<Rightarrow> int \<Rightarrow> bool" where
  "inBounds cfg r c \<longleftrightarrow> 0 \<le> r \<and> r < rows cfg \<and> 0 \<le> c \<and> c < cols cfg"

text \<open>
  The 3x3 block around a cell, clipped to the board: the cells the first click promises to
  keep free of mines when there is room for the mines elsewhere.
\<close>

definition clippedNeighbourhood :: "GameConfig \<Rightarrow> int \<Rightarrow> int \<Rightarrow> (int \<times> int) list" where
  "clippedNeighbourhood cfg r c =
     filter (\<lambda>(nr, nc). inBounds cfg nr nc)
       [(r - 1, c - 1), (r - 1, c), (r - 1, c + 1),
        (r, c - 1), (r, c), (r, c + 1),
        (r + 1, c - 1), (r + 1, c), (r + 1, c + 1)]"

text \<open>The linear index \<open>row * cols + col\<close> of a cell.\<close>

definition cellIndex :: "GameConfig \<Rightarrow> int \<times> int \<Rightarrow> int" where
  "cellIndex cfg = (\<lambda>(r, c). r * cols cfg + c)"

text \<open>Whether a mine lies at a coordinate; no cell, no mine.\<close>

definition mineAt :: "Cell list list \<Rightarrow> int \<Rightarrow> int \<Rightarrow> bool" where
  "mineAt b r c = (case cellAt b r c of None \<Rightarrow> False | Some x \<Rightarrow> isMine x)"

text \<open>
  The reference count of the adjacency numbers: how many of the up to eight cells around
  \<open>(r, c)\<close>, other than the cell itself, hold a mine.
\<close>

definition minedNeighbours :: "Cell list list \<Rightarrow> int \<Rightarrow> int \<Rightarrow> int" where
  "minedNeighbours b r c =
     int (card {(nr, nc). (nr, nc) \<noteq> (r, c) \<and> \<bar>nr - r\<bar> \<le> 1 \<and> \<bar>nc - c\<bar> \<le> 1 \<and> mineAt b nr nc})"

text \<open>A safe cell with its adjacency number set to the reference count.\<close>

definition setAdjacent :: "Cell list list \<Rightarrow> int \<Rightarrow> int \<Rightarrow> Cell \<Rightarrow> Cell" where
  "setAdjacent b r c x = (if isMine x then x else x\<lparr>adjacent := minedNeighbours b r c\<rparr>)"

text \<open>
  Two boards of the same shape whose cells at equal coordinates are related by \<open>Q\<close>.
\<close>

definition cellsRelated :: "(Cell \<Rightarrow> Cell \<Rightarrow> bool) \<Rightarrow> Cell list list \<Rightarrow> Cell list list \<Rightarrow> bool" where
  "cellsRelated Q b b' \<longleftrightarrow>
     map length b' = map length b \<and>
     (\<forall>r c x. cellAt b r c = Some x \<longrightarrow> (\<exists>y. cellAt b' r c = Some y \<and> Q x y))"

text \<open>What a reveal may do to one cell: flag and mine stay, an open cell stays open.\<close>

definition keepsFlagsAndMines :: "Cell \<Rightarrow> Cell \<Rightarrow> bool" where
  "keepsFlagsAndMines x y \<longleftrightarrow> isFlagged y = isFlagged x \<and> isMine y = isMine x \<and> (isOpen x \<longrightarrow> isOpen y)"

text \<open>What any step of a click may do to one cell: the flag stays, an open cell stays open.\<close>

definition keepsFlags :: "Cell \<Rightarrow> Cell \<Rightarrow> bool" where
  "keepsFlags x y \<longleftrightarrow> isFlagged y = isFlagged x \<and> (isOpen x \<longrightarrow> isOpen y)"

text \<open>The invariant of a configuration (spec section 3); \<open>getConfigFromUI\<close> produces such values.\<close>

definition validConfig :: "GameConfig \<Rightarrow> bool" where
  "validConfig cfg \<longleftrightarrow> 0 < rows cfg \<and> 0 < cols cfg \<and> 0 < mines cfg \<and> mines cfg < rows cfg * cols cfg"

text \<open>Safe cells that are not open yet, and mines that are open.\<close>

definition safeCellsLeft :: "Cell list list \<Rightarrow> nat" where
  "safeCellsLeft b = countCells (\<lambda>x. \<not> isMine x \<and> \<not> isOpen x) b"

definition openMines :: "Cell list list \<Rightarrow> nat" where
  "openMines b = countCells (\<lambda>x. isMine x \<and> isOpen x) b"

text \<open>
  The sessions the page can be in: it loads with some stored settings and leaderboard and a
  fresh game, and every event handler that returns normally leads to another session.
\<close>

inductive reachable :: "Globals \<Rightarrow> bool" where
  pageLoad: "validConfig cfg \<Longrightarrow>
     reachable (GameState.extend (createInitialState cfg) \<lparr>settings = s, leaderboard = l\<rparr>)"
| newGame: "reachable g \<Longrightarrow> validConfig cfg \<Longrightarrow> reachable (startNewGame env cfg g)"
| click: "reachable g \<Longrightarrow> handleCellClick env g row col = Some g' \<Longrightarrow> reachable g'"
| flag: "reachable g \<Longrightarrow> toggleFlag g row col = Some g' \<Longrightarrow> reachable g'"
| hint: "reachable g \<Longrightarrow> handleHint env g = Some g' \<Longrightarrow> reachable g'"
| resetTimer: "reachable g \<Longrightarrow> reachable (resetTimerOnly env g)"
| tick: "reachable g \<Longrightarrow> timerId g \<noteq> None \<Longrightarrow> reachable (updateTimer env g)"
| setSettings: "reachable g \<Longrightarrow> reachable (g\<lparr>settings := s\<rparr>)"
| clearRecords: "reachable g \<Longrightarrow> reachable (g\<lparr>leaderboard := Map.empty\<rparr>)"

text \<open>The invariant of reachable sessions used in the proofs.\<close>

definition sessionInv :: "Globals \<Rightarrow> bool" where
  "sessionInv g \<longleftrightarrow>
     wfBoard (config g) (board g) \<and> validConfig (config g) \<and>
     flags g = int (countCells isFlagged (board g)) \<and>
     (\<not> minesPlaced g \<longrightarrow> countCells isMine (board g) = 0 \<and> countCells isOpen (board g) = 0 \<and>
                          openCount g = 0 \<and> \<not> isGameOver g) \<and>
     (minesPlaced g \<longrightarrow> int (countCells isMine (board g)) = mines (config g)) \<and>
     (\<not> isGameOver g \<longrightarrow> openCount g = int (countCells isOpen (board g)) \<and> openMines (board g) = 0 \<and>
                          openCount g < rows (config g) * cols (config g) - mines (config g)) \<and>
     (isGameOver g \<and> didWin g \<longrightarrow> openMines (board g) = 0 \<and> safeCellsLeft (board g) = 0) \<and>
     (isGameOver g \<and> \<not> didWin g \<longrightarrow> 0 < openMines (board g))"

text \<open>The invariant between opening safe cells and the win check that follows.\<close>

definition playingInv :: "Globals \<Rightarrow> bool" where
  "playingInv g \<longleftrightarrow>
     wfBoard (config g) (board g) \<and> validConfig (config g) \<and>
     flags g = int (countCells isFlagged (board g)) \<and>
     minesPlaced g \<and> int (countCells isMine (board g)) = mines (config g) \<and>
     \<not> isGameOver g \<and> openCount g = int (countCells isOpen (board g)) \<and> openMines (board g) = 0"

text \<open>What a click never changes: configuration, flag counter, hint counter, flags on cells.\<close>

definition keepsCounters :: "Globals \<Rightarrow> Globals \<Rightarrow> bool" where
  "keepsCounters g g' \<longleftrightarrow>
     config g' = config g \<and> flags g' = flags g \<and> hintsUsed g' = hintsUsed g \<and>
     cellsRelated keepsFlags (board g) (board g')"

text \<open>A cell the hint may point at: closed, unflagged and safe.\<close>

definition hintable :: "Cell \<Rightarrow> bool" where
  "hintable x \<longleftrightarrow> \<not> isOpen x \<and> \<not> isFlagged x \<and> \<not> isMine x"

section \<open>Leaderboard load: reference notions\<close>









section \<open>Facts about the grid and the fresh session\<close>

lemma set_gridCoords: "set (gridCoords rs cs) = {0..rs - 1} \<times> {0..cs - 1}"
  by (simp add: gridCoords_def)

lemma distinct_gridCoords: "distinct (gridCoords rs cs)"
  by (simp add: gridCoords_def distinct_product)

lemma in_gridCoords: "(r, c) \<in> set (gridCoords rs cs) \<longleftrightarrow> 0 \<le> r \<and> r < rs \<and> 0 \<le> c \<and> c < cs"
  by (auto simp: set_gridCoords)

lemma map_length_cellAt_None:
  assumes "map length b' = map length b"
  shows "cellAt b' r c = None \<longleftrightarrow> cellAt b r c = None"
proof -
  have l: "length b' = length b" using assms by (metis length_map)
  have "length (b' ! i) = length (b ! i)" if "i < length b" for i
    using assms that l by (metis nth_map)
  then show ?thesis using l by (auto simp: cellAt_def)
qed

lemma config_freshGlobals [simp]: "config (freshGlobals cfg) = cfg"
  by (simp add: freshGlobals_def createInitialState_def GameState.defs)

lemma board_freshGlobals [simp]: "board (freshGlobals cfg) = createEmptyBoard (rows cfg) (cols cfg)"
  by (simp add: freshGlobals_def createInitialState_def GameState.defs)

lemma wfBoard_createEmptyBoard [simp]: "wfBoard cfg (createEmptyBoard (rows cfg) (cols cfg))"
  by (simp add: wfBoard_def createEmptyBoard_def)

lemma cellAt_createEmptyBoard:
  "cellAt (createEmptyBoard rs cs) r c =
     (if 0 \<le> r \<and> r < rs \<and> 0 \<le> c \<and> c < cs
      then Some \<lparr>isMine = False, isOpen = False, isFlagged = False, adjacent = 0, isWrongFlag = False\<rparr>
      else None)"
  by (auto simp: cellAt_def createEmptyBoard_def split: if_splits)

lemma wf_sampleBoardState: "wfBoard (config sampleBoardState) (board sampleBoardState)"
  by (simp add: sampleBoardState_def customConfig_def
        wfBoard_createEmptyBoard[of customConfig, unfolded customConfig_def, simplified])

lemma sample_cell_0_0:
  "cellAt (board sampleBoardState) 0 0 =
     Some \<lparr>isMine = True, isOpen = False, isFlagged = False, adjacent = 0, isWrongFlag = False\<rparr>"
  by (simp add: sampleBoardState_def cellAt_setCell cellAt_createEmptyBoard)

lemma sample_cell_0_1:
  "cellAt (board sampleBoardState) 0 1 =
     Some \<lparr>isMine = False, isOpen = False, isFlagged = True, adjacent = 1, isWrongFlag = False\<rparr>"
  by (simp add: sampleBoardState_def cellAt_setCell cellAt_createEmptyBoard)

lemma sample_cell_1_1:
  "cellAt (board sampleBoardState) 1 1 =
     Some \<lparr>isMine = False, isOpen = False, isFlagged = False, adjacent = 1, isWrongFlag = False\<rparr>"
  by (simp add: sampleBoardState_def cellAt_setCell cellAt_createEmptyBoard)

lemma sample_cell_5_5:
  "cellAt (board sampleBoardState) 5 5 =
     Some \<lparr>isMine = False, isOpen = False, isFlagged = False, adjacent = 0, isWrongFlag = False\<rparr>"
  by (simp add: sampleBoardState_def cellAt_setCell cellAt_createEmptyBoard)

lemma fresh_no_mines: "\<forall>r c x. cellAt (board (freshGlobals cfg)) r c = Some x \<longrightarrow> \<not> isMine x"
  by (auto simp: cellAt_createEmptyBoard split: if_splits)

lemma wf_freshGlobals: "wfBoard (config (freshGlobals cfg)) (board (freshGlobals cfg))"
  by simp

section \<open>End-of-game reveal\<close>

lemma revealLoop:
  assumes "distinct ps" "\<forall>(r, c) \<in> set ps. cellAt (board g) r c \<noteq> None"
  shows "\<exists>b'. forEachM revealStep ps g = Some (g\<lparr>board := b'\<rparr>) \<and>
              map length b' = map length (board g) \<and>
              (\<forall>r c. cellAt b' r c = (if (r, c) \<in> set ps then map_option revealCell (cellAt (board g) r c)
                                     else cellAt (board g) r c))"
  using assms
proof (induction ps arbitrary: g)
  case Nil
  show ?case by (rule exI[of _ "board g"]) simp
next
  case (Cons p ps)
  obtain r0 c0 where p: "p = (r0, c0)" by (cases p)
  from Cons.prems(2) p obtain x where x: "cellAt (board g) r0 c0 = Some x" by auto
  let ?g1 = "g\<lparr>board := setCell (board g) r0 c0 (revealCell x)\<rparr>"
  have step: "revealStep p g = Some ?g1"
    by (simp add: revealStep_def p x)
  note at1 = cellAt_setCell[OF x]
  have pre: "\<forall>(r, c) \<in> set ps. cellAt (board ?g1) r c \<noteq> None"
    using Cons.prems(2) by (auto simp: at1)
  from Cons.prems(1) have d: "distinct ps" and notin: "(r0, c0) \<notin> set ps"
    by (auto simp: p)
  from Cons.IH[OF d pre] obtain b' where
    b': "forEachM revealStep ps ?g1 = Some (?g1\<lparr>board := b'\<rparr>)"
        "map length b' = map length (board ?g1)"
        "\<And>r c. cellAt b' r c = (if (r, c) \<in> set ps then map_option revealCell (cellAt (board ?g1) r c)
                                     else cellAt (board ?g1) r c)"
    by blast
  have 1: "forEachM revealStep (p # ps) g = Some (g\<lparr>board := b'\<rparr>)"
    using step b'(1) by simp
  have 2: "map length b' = map length (board g)"
    using b'(2) by simp
  have 3: "cellAt b' r c = (if (r, c) \<in> set (p # ps) then map_option revealCell (cellAt (board g) r c)
                                     else cellAt (board g) r c)" for r c
    using b'(3)[of r c] notin x by (auto simp: at1 p)
  from 1 2 3 show ?case by blast
qed

lemma revealMines_result:
  assumes "wfBoard (config g) (board g)"
  shows "\<exists>b'. revealMines g = Some (g\<lparr>board := b'\<rparr>) \<and> wfBoard (config g) b' \<and>
           (\<forall>r c x. cellAt (board g) r c = Some x \<longrightarrow> cellAt b' r c = Some (revealCell x))"
proof -
  let ?ps = "gridCoords (rows (config g)) (cols (config g))"
  have pre: "\<forall>(r, c) \<in> set ?ps. cellAt (board g) r c \<noteq> None"
    using wfBoard_cellAt[OF assms] by (auto simp: in_gridCoords)
  from revealLoop[OF distinct_gridCoords pre] obtain b' where
    b': "forEachM revealStep ?ps g = Some (g\<lparr>board := b'\<rparr>)"
        "map length b' = map length (board g)"
        "\<And>r c. cellAt b' r c = (if (r, c) \<in> set ?ps then map_option revealCell (cellAt (board g) r c)
                                     else cellAt (board g) r c)"
    by blast
  have wf': "wfBoard (config g) b'"
    using assms b'(2) by (simp add: wfBoard_def)
  have cells: "cellAt b' r c = Some (revealCell x)" if "cellAt (board g) r c = Some x" for r c x
  proof -
    have "(r, c) \<in> set ?ps"
      using wfBoard_cellAt[OF assms, of r c] that by (simp add: in_gridCoords)
    then show ?thesis using b'(3)[of r c] that by simp
  qed
  show ?thesis
    using b'(1) wf' cells unfolding revealMines_def by blast
qed

text \<open>
  C5.  On a board of the configured dimensions \<open>revealMines\<close> returns normally, changes
  nothing but the board, and maps every cell as follows: a mine gets \<open>isOpen = true\<close>, a
  flagged cell that is no mine gets \<open>isOpen = true\<close> and \<open>isWrongFlag = true\<close>, and a cell
  that is neither a mine nor flagged keeps every field; no other field of any cell changes.
\<close>

theorem revealMines_effect:
  assumes "wfBoard (config g) (board g)"
  shows "\<exists>b'. revealMines g = Some (g\<lparr>board := b'\<rparr>) \<and> wfBoard (config g) b' \<and>
           (\<forall>r c x. cellAt (board g) r c = Some x \<longrightarrow>
              cellAt b' r c = Some (if isMine x then x\<lparr>isOpen := True\<rparr>
                                    else if isFlagged x then x\<lparr>isOpen := True, isWrongFlag := True\<rparr>
                                    else x))"
  using revealMines_result[OF assms] unfolding revealCell_def .

theorem revealMines_effect_witness:
  "\<exists>b'. revealMines sampleBoardState = Some (sampleBoardState\<lparr>board := b'\<rparr>) \<and>
        cellAt b' 0 0 = Some \<lparr>isMine = True, isOpen = True, isFlagged = False, adjacent = 0, isWrongFlag = False\<rparr> \<and>
        cellAt b' 0 1 = Some \<lparr>isMine = False, isOpen = True, isFlagged = True, adjacent = 1, isWrongFlag = True\<rparr> \<and>
        cellAt b' 1 1 = Some \<lparr>isMine = False, isOpen = False, isFlagged = False, adjacent = 1, isWrongFlag = False\<rparr>"
proof -
  from revealMines_effect[OF wf_sampleBoardState] obtain b' where
    b': "revealMines sampleBoardState = Some (sampleBoardState\<lparr>board := b'\<rparr>)"
        "\<And>r c x. cellAt (board sampleBoardState) r c = Some x \<Longrightarrow>
              cellAt b' r c = Some (if isMine x then x\<lparr>isOpen := True\<rparr>
                                    else if isFlagged x then x\<lparr>isOpen := True, isWrongFlag := True\<rparr>
                                    else x)"
    by blast
  show ?thesis
    using b'(1) b'(2)[OF sample_cell_0_0] b'(2)[OF sample_cell_0_1] b'(2)[OF sample_cell_1_1]
    by auto
qed

section \<open>Mine placement\<close>

lemma offsets_eq: "offsets = [(-1,-1),(-1,0),(-1,1),(0,-1),(0,0),(0,1),(1,-1),(1,0),(1,1)]"
  by (simp add: offsets_def)

lemma cellIndex_inj:
  assumes "inBounds cfg r c" "inBounds cfg r' c'" "r * cols cfg + c = r' * cols cfg + c'"
  shows "r = r' \<and> c = c'"
proof -
  let ?C = "cols cfg"
  from assms have c: "0 \<le> c" "c < ?C" "0 \<le> c'" "c' < ?C" by (auto simp: inBounds_def)
  have "(r * ?C + c) div ?C = r" using c by simp
  moreover have "(r' * ?C + c') div ?C = r'" using c by simp
  ultimately have "r = r'" using assms(3) by simp
  then show ?thesis using assms(3) by simp
qed

lemma cellIndex_decode:
  assumes "inBounds cfg r c"
  shows "(r * cols cfg + c) div cols cfg = r" "(r * cols cfg + c) mod cols cfg = c"
  using assms by (auto simp: inBounds_def)

lemma cellIndex_inj_on: "inj_on (cellIndex cfg) {(r, c). inBounds cfg r c}"
  by (rule inj_onI) (auto simp: cellIndex_def dest: cellIndex_inj)

lemma abs_le_one_iff: "\<bar>a - b\<bar> \<le> 1 \<longleftrightarrow> a = b - 1 \<or> a = b \<or> a = b + 1" for a b :: int
  by arith

lemma in_clippedNeighbourhood:
  "(nr, nc) \<in> set (clippedNeighbourhood cfg r c) \<longleftrightarrow>
     \<bar>nr - r\<bar> \<le> 1 \<and> \<bar>nc - c\<bar> \<le> 1 \<and> inBounds cfg nr nc"
  unfolding clippedNeighbourhood_def abs_le_one_iff by auto

lemma distinct_clippedNeighbourhood: "distinct (clippedNeighbourhood cfg r c)"
  unfolding clippedNeighbourhood_def by (rule distinct_filter) simp

lemma exclusions_fold:
  assumes f: "f = (\<lambda>(dr, dc) exclusions.
             let nr = r + dr; nc = c + dc
             in if nr \<ge> 0 \<and> nr < rows cfg \<and> nc \<ge> 0 \<and> nc < cols cfg
                then insert (nr * cols cfg + nc) exclusions else exclusions)"
  shows "fold f ds S
   = S \<union> cellIndex cfg ` set (filter (\<lambda>(nr, nc). inBounds cfg nr nc) (map (\<lambda>(dr, dc). (r + dr, c + dc)) ds))"
proof (induction ds arbitrary: S)
  case Nil
  then show ?case by simp
next
  case (Cons d ds)
  obtain dr dc where d: "d = (dr, dc)" by (cases d)
  have step: "f (dr, dc) S = (if inBounds cfg (r + dr) (c + dc) then insert (cellIndex cfg (r + dr, c + dc)) S else S)"
    by (simp add: f Let_def inBounds_def cellIndex_def)
  have "fold f (d # ds) S = fold f ds (f d S)" by simp
  also have "\<dots> = f d S \<union> cellIndex cfg ` set (filter (\<lambda>(nr, nc). inBounds cfg nr nc) (map (\<lambda>(dr, dc). (r + dr, c + dc)) ds))"
    by (rule Cons.IH)
  finally show ?case
    by (auto simp: step d)
qed

lemma exclusionsAround_eq:
  "exclusionsAround cfg r c = cellIndex cfg ` set (clippedNeighbourhood cfg r c)"
proof -
  have "map (\<lambda>(dr, dc). (r + dr, c + dc)) offsets =
        [(r - 1, c - 1), (r - 1, c), (r - 1, c + 1),
        (r, c - 1), (r, c), (r, c + 1),
        (r + 1, c - 1), (r + 1, c), (r + 1, c + 1)]"
    by (simp add: offsets_eq)
  then show ?thesis
    unfolding exclusionsAround_def clippedNeighbourhood_def
    by (subst exclusions_fold[OF refl]) simp
qed

lemma card_exclusionsAround:
  "card (exclusionsAround cfg r c) = length (clippedNeighbourhood cfg r c)"
proof -
  have "set (clippedNeighbourhood cfg r c) \<subseteq> {(r, c). inBounds cfg r c}"
    by (auto simp: in_clippedNeighbourhood)
  then have "inj_on (cellIndex cfg) (set (clippedNeighbourhood cfg r c))"
    using cellIndex_inj_on inj_on_subset by blast
  then show ?thesis
    by (simp add: exclusionsAround_eq card_image distinct_card distinct_clippedNeighbourhood)
qed

lemma set_gridCoords_inBounds:
  "set (gridCoords (rows cfg) (cols cfg)) = {(r, c). inBounds cfg r c}"
  by (auto simp: in_gridCoords inBounds_def)

lemma candidatePositions_alt:
  "candidatePositions cfg E =
     filter (\<lambda>index. index \<notin> E) (map (cellIndex cfg) (gridCoords (rows cfg) (cols cfg)))"
  by (simp add: candidatePositions_def cellIndex_def)

lemma set_allIndices:
  "set (map (cellIndex cfg) (gridCoords (rows cfg) (cols cfg)))
     = cellIndex cfg ` {(r, c). inBounds cfg r c}"
  by (simp add: set_gridCoords_inBounds)

lemma distinct_allIndices:
  "distinct (map (cellIndex cfg) (gridCoords (rows cfg) (cols cfg)))"
proof -
  have "inj_on (cellIndex cfg) (set (gridCoords (rows cfg) (cols cfg)))"
    using cellIndex_inj_on by (simp add: set_gridCoords_inBounds)
  then show ?thesis
    using distinct_gridCoords by (simp add: distinct_map)
qed

lemma length_allIndices:
  "length (map (cellIndex cfg) (gridCoords (rows cfg) (cols cfg)))
     = nat (rows cfg) * nat (cols cfg)"
  by (simp add: gridCoords_def)

lemma set_candidatePositions:
  "set (candidatePositions cfg E) = cellIndex cfg ` {(r, c). inBounds cfg r c} - E"
  unfolding candidatePositions_alt set_filter set_allIndices by blast

lemma distinct_candidatePositions: "distinct (candidatePositions cfg E)"
  unfolding candidatePositions_alt by (rule distinct_filter) (rule distinct_allIndices)

lemma length_candidatePositions:
  assumes "E \<subseteq> cellIndex cfg ` {(r, c). inBounds cfg r c}"
  shows "length (candidatePositions cfg E) + card E = nat (rows cfg) * nat (cols cfg)"
proof -
  let ?all = "map (cellIndex cfg) (gridCoords (rows cfg) (cols cfg))"
  have E: "E \<subseteq> set ?all" using assms unfolding set_allIndices .
  then have fin: "finite E" using finite_subset by blast
  have call: "card (set ?all) = nat (rows cfg) * nat (cols cfg)"
    using distinct_card[OF distinct_allIndices] length_allIndices by metis
  have "length (candidatePositions cfg E) = card (set (candidatePositions cfg E))"
    by (simp add: distinct_card distinct_candidatePositions)
  also have "\<dots> = card (set ?all - E)"
    unfolding set_candidatePositions set_allIndices ..
  also have "\<dots> = card (set ?all) - card E"
    by (rule card_Diff_subset[OF fin E])
  finally have "length (candidatePositions cfg E) = nat (rows cfg) * nat (cols cfg) - card E"
    using call by simp
  moreover have "card E \<le> nat (rows cfg) * nat (cols cfg)"
    using card_mono[OF _ E] call by simp
  ultimately show ?thesis by simp
qed

lemma randomBelow_range:
  assumes "0 < n"
  shows "0 \<le> randomBelow r n \<and> randomBelow r n < n"
  using assms by (simp add: randomBelow_def)

lemma shuffle_fold_mset:
  assumes "\<forall>i \<in> set is. i < length xs"
  shows "mset (fold (\<lambda>i ps. let j = nat (randomBelow (rnd i) (int i + 1)) in ps[i := ps ! j, j := ps ! i]) is xs)
         = mset xs"
  using assms
proof (induction "is" arbitrary: xs)
  case Nil
  then show ?case by simp
next
  case (Cons i "is")
  let ?j = "nat (randomBelow (rnd i) (int i + 1))"
  let ?ys = "xs[i := xs ! ?j, ?j := xs ! i]"
  have i: "i < length xs" using Cons.prems by simp
  have "?j \<le> i" using randomBelow_range[of "int i + 1" "rnd i"] by linarith
  then have j: "?j < length xs" using i by simp
  have m: "mset ?ys = mset xs"
    using mset_swap[OF j i] .
  have l: "\<forall>k \<in> set is. k < length ?ys" using Cons.prems by simp
  show ?case
    using Cons.IH[OF l] m by (simp add: Let_def)
qed

lemma mset_shuffle: "mset (shuffle rnd xs) = mset xs"
  unfolding shuffle_def by (rule shuffle_fold_mset) simp

lemma set_shuffle: "set (shuffle rnd xs) = set xs"
  using mset_shuffle by (metis set_mset_mset)

lemma length_shuffle: "length (shuffle rnd xs) = length xs"
  using mset_shuffle by (metis size_mset)

lemma distinct_shuffle: "distinct (shuffle rnd xs) = distinct xs"
  using mset_shuffle by (metis mset_eq_imp_distinct_iff)

lemma placeMineAt_step:
  assumes wf: "wfBoard cfg (board g)"
    and i: "0 \<le> i" "nat i < length positions"
    and idx: "positions ! nat i = r0 * cols cfg + c0" "inBounds cfg r0 c0"
  shows "\<exists>x. cellAt (board g) r0 c0 = Some x \<and>
             placeMineAt cfg positions i g = Some (g\<lparr>board := setCell (board g) r0 c0 (x\<lparr>isMine := True\<rparr>)\<rparr>)"
proof -
  from wfBoard_cellAt[OF wf, of r0 c0] idx(2) obtain x where x: "cellAt (board g) r0 c0 = Some x"
    by (auto simp: inBounds_def)
  show ?thesis
    using x i cellIndex_decode[OF idx(2)] by (simp add: placeMineAt_def idx(1) Let_def)
qed

lemma markLoop:
  assumes "wfBoard cfg (board g)"
    and "\<forall>i \<in> set is. 0 \<le> i \<and> nat i < length positions \<and>
            positions ! nat i \<in> cellIndex cfg ` {(r, c). inBounds cfg r c}"
    and "distinct (map (\<lambda>i. positions ! nat i) is)"
    and "\<forall>r c x. cellAt (board g) r c = Some x \<and> cellIndex cfg (r, c) \<in> (\<lambda>i. positions ! nat i) ` set is
            \<longrightarrow> \<not> isMine x"
  shows "\<exists>b'. forEachM (placeMineAt cfg positions) is g = Some (g\<lparr>board := b'\<rparr>) \<and>
              map length b' = map length (board g) \<and>
              (\<forall>r c. cellAt b' r c =
                 (if cellIndex cfg (r, c) \<in> (\<lambda>i. positions ! nat i) ` set is
                  then map_option (\<lambda>x. x\<lparr>isMine := True\<rparr>) (cellAt (board g) r c)
                  else cellAt (board g) r c)) \<and>
              countCells isMine b' = countCells isMine (board g) + length is"
  using assms
proof (induction "is" arbitrary: g)
  case Nil
  show ?case by (rule exI[of _ "board g"]) simp
next
  case (Cons i "is")
  let ?at = "\<lambda>i. positions ! nat i"
  from Cons.prems(2) obtain r0 c0 where i: "0 \<le> i" "nat i < length positions"
    and idx: "?at i = r0 * cols cfg + c0" "inBounds cfg r0 c0"
    by (auto simp: cellIndex_def)
  from placeMineAt_step[OF Cons.prems(1) i idx] obtain x where
    x: "cellAt (board g) r0 c0 = Some x"
    and step: "placeMineAt cfg positions i g = Some (g\<lparr>board := setCell (board g) r0 c0 (x\<lparr>isMine := True\<rparr>)\<rparr>)"
    by blast
  let ?g1 = "g\<lparr>board := setCell (board g) r0 c0 (x\<lparr>isMine := True\<rparr>)\<rparr>"
  note at1 = cellAt_setCell[OF x]
  have ci0: "cellIndex cfg (r0, c0) = ?at i" by (simp add: cellIndex_def idx(1))
  have nm: "\<not> isMine x"
    using Cons.prems(4) x ci0 by auto
  have notin: "?at i \<notin> ?at ` set is"
    using Cons.prems(3) by auto
  have wf1: "wfBoard cfg (board ?g1)" using Cons.prems(1) by simp
  have p2: "\<forall>i \<in> set is. 0 \<le> i \<and> nat i < length positions \<and>
            positions ! nat i \<in> cellIndex cfg ` {(r, c). inBounds cfg r c}"
    using Cons.prems(2) by simp
  have p3: "distinct (map ?at is)" using Cons.prems(3) by simp
  have p4: "\<forall>r c y. cellAt (board ?g1) r c = Some y \<and> cellIndex cfg (r, c) \<in> ?at ` set is
            \<longrightarrow> \<not> isMine y"
  proof (intro allI impI)
    fix r c y
    assume a: "cellAt (board ?g1) r c = Some y \<and> cellIndex cfg (r, c) \<in> ?at ` set is"
    have "\<not> (r = r0 \<and> c = c0)"
    proof
      assume "r = r0 \<and> c = c0"
      then have "?at i \<in> ?at ` set is" using a ci0 by metis
      then show False using notin by contradiction
    qed
    then have "cellAt (board g) r c = Some y" using a by (auto simp: at1)
    then show "\<not> isMine y" using Cons.prems(4) a by auto
  qed
  from Cons.IH[OF wf1 p2 p3 p4] obtain b' where
    b': "forEachM (placeMineAt cfg positions) is ?g1 = Some (?g1\<lparr>board := b'\<rparr>)"
        "map length b' = map length (board ?g1)"
        "\<And>r c. cellAt b' r c =
                 (if cellIndex cfg (r, c) \<in> ?at ` set is
                  then map_option (\<lambda>x. x\<lparr>isMine := True\<rparr>) (cellAt (board ?g1) r c)
                  else cellAt (board ?g1) r c)"
        "countCells isMine b' = countCells isMine (board ?g1) + length is"
    by blast
  have 1: "forEachM (placeMineAt cfg positions) (i # is) g = Some (g\<lparr>board := b'\<rparr>)"
    using step b'(1) by simp
  have 2: "map length b' = map length (board g)" using b'(2) by simp
  have 3: "cellAt b' r c =
                 (if cellIndex cfg (r, c) \<in> ?at ` set (i # is)
                  then map_option (\<lambda>x. x\<lparr>isMine := True\<rparr>) (cellAt (board g) r c)
                  else cellAt (board g) r c)" for r c
  proof (cases "r = r0 \<and> c = c0")
    case True
    then show ?thesis using b'(3)[of r c] notin ci0 x by (simp add: at1)
  next
    case False
    have "cellIndex cfg (r, c) \<noteq> ?at i" if "cellAt (board g) r c \<noteq> None"
    proof
      assume e: "cellIndex cfg (r, c) = ?at i"
      have "inBounds cfg r c"
        using wfBoard_cellAt[OF Cons.prems(1), of r c] that by (simp add: inBounds_def)
      from cellIndex_inj[OF this idx(2)] e idx(1) False show False
        by (simp add: cellIndex_def)
    qed
    then show ?thesis using b'(3)[of r c] False
      by (cases "cellAt (board g) r c") (auto simp: at1)
  qed
  have "countCells isMine (board ?g1) = countCells isMine (board g) + 1"
    using countCells_setCell[OF x, of isMine "x\<lparr>isMine := True\<rparr>"] nm by simp
  then have 4: "countCells isMine b' = countCells isMine (board g) + length (i # is)"
    using b'(4) by simp
  from 1 2 3 4 show ?case by blast
qed

lemma countStep_eq:
  assumes "wfBoard (config g) (board g)"
  shows "countStep g row col (dr, dc) n =
           Some (n + (if (dr, dc) \<noteq> (0, 0) \<and> mineAt (board g) (row + dr) (col + dc) then 1 else 0))"
proof (cases "cellAt (board g) (row + dr) (col + dc)")
  case None
  then have "row + dr < 0 \<or> row + dr \<ge> rows (config g) \<or> col + dc < 0 \<or> col + dc \<ge> cols (config g)"
    using wfBoard_cellAt[OF assms, of "row + dr" "col + dc"] by auto
  then show ?thesis
    using None by (auto simp: countStep_def mineAt_def Let_def)
next
  case (Some x)
  then have "\<not> (row + dr < 0 \<or> row + dr \<ge> rows (config g) \<or> col + dc < 0 \<or> col + dc \<ge> cols (config g))"
    using wfBoard_cellAt[OF assms, of "row + dr" "col + dc"] by auto
  then show ?thesis
    using Some by (auto simp: countStep_def mineAt_def Let_def)
qed

lemma countLoop:
  assumes "wfBoard (config g) (board g)"
  shows "forEachM (countStep g row col) ds n =
           Some (n + int (length (filter (\<lambda>(dr, dc). (dr, dc) \<noteq> (0, 0) \<and> mineAt (board g) (row + dr) (col + dc)) ds)))"
proof (induction ds arbitrary: n)
  case Nil
  then show ?case by simp
next
  case (Cons d ds)
  obtain dr dc where d: "d = (dr, dc)" by (cases d)
  show ?case
    unfolding d by (simp add: countStep_eq[OF assms] Cons.IH)
qed

lemma in_offsets: "(dr, dc) \<in> set offsets \<longleftrightarrow> \<bar>dr\<bar> \<le> 1 \<and> \<bar>dc\<bar> \<le> 1"
proof -
  have "\<bar>a\<bar> \<le> 1 \<longleftrightarrow> a = - 1 \<or> a = 0 \<or> a = 1" for a :: int
    by arith
  then show ?thesis
    by (simp add: offsets_def) blast
qed

lemma neighbour_set:
  "{(nr, nc). (nr, nc) \<noteq> (r, c) \<and> \<bar>nr - r\<bar> \<le> 1 \<and> \<bar>nc - c\<bar> \<le> 1 \<and> P nr nc}
     = (\<lambda>(dr, dc). (r + dr, c + dc)) ` set (filter (\<lambda>(dr, dc). (dr, dc) \<noteq> (0, 0) \<and> P (r + dr) (c + dc)) offsets)"
  (is "?L = ?R")
proof (intro equalityI subsetI)
  fix p assume "p \<in> ?L"
  then obtain nr nc where p: "p = (nr, nc)" "(nr, nc) \<noteq> (r, c)" "\<bar>nr - r\<bar> \<le> 1" "\<bar>nc - c\<bar> \<le> 1" "P nr nc"
    by blast
  let ?d = "(nr - r, nc - c)"
  have "?d \<in> set offsets" using p(3,4) by (simp add: in_offsets)
  moreover have "?d \<noteq> (0, 0)" using p(2) by simp
  moreover have "P (r + (nr - r)) (c + (nc - c))" using p(5) by simp
  ultimately have "?d \<in> set (filter (\<lambda>(dr, dc). (dr, dc) \<noteq> (0, 0) \<and> P (r + dr) (c + dc)) offsets)"
    by simp
  moreover have "p = (\<lambda>(dr, dc). (r + dr, c + dc)) ?d" using p(1) by simp
  ultimately show "p \<in> ?R" by (rule rev_image_eqI)
next
  fix p assume "p \<in> ?R"
  then obtain dr dc where d: "(dr, dc) \<in> set offsets" "(dr, dc) \<noteq> (0, 0)" "P (r + dr) (c + dc)"
    and p: "p = (r + dr, c + dc)"
    by auto
  from d(1) have "\<bar>dr\<bar> \<le> 1" "\<bar>dc\<bar> \<le> 1" by (simp_all add: in_offsets)
  then show "p \<in> ?L" using d(2,3) p by simp
qed

lemma countAdjacentMines_eq:
  assumes "wfBoard (config g) (board g)"
  shows "countAdjacentMines g row col = Some (minedNeighbours (board g) row col)"
proof -
  let ?P = "\<lambda>(dr, dc). (dr, dc) \<noteq> (0, 0) \<and> mineAt (board g) (row + dr) (col + dc)"
  have d: "distinct (filter ?P offsets)"
    by (rule distinct_filter) (simp add: offsets_eq)
  have inj: "inj_on (\<lambda>(dr, dc). (row + dr, col + dc)) (set (filter ?P offsets))"
    by (rule inj_onI) auto
  have "card {(nr, nc). (nr, nc) \<noteq> (row, col) \<and> \<bar>nr - row\<bar> \<le> 1 \<and> \<bar>nc - col\<bar> \<le> 1 \<and> mineAt (board g) nr nc}
        = length (filter ?P offsets)"
    unfolding neighbour_set by (simp only: card_image[OF inj] distinct_card[OF d])
  then show ?thesis
    unfolding countAdjacentMines_def countLoop[OF assms] minedNeighbours_def by simp
qed

lemma minedNeighbours_cong:
  assumes "\<And>r c. mineAt b' r c = mineAt b r c"
  shows "minedNeighbours b' r c = minedNeighbours b r c"
  unfolding minedNeighbours_def by (simp add: assms)

lemma mineAt_setCell:
  assumes "cellAt b r c = Some x" "isMine y = isMine x"
  shows "mineAt (setCell b r c y) r' c' = mineAt b r' c'"
  using assms by (auto simp: mineAt_def cellAt_setCell[OF assms(1)])

lemma adjacentLoop:
  assumes "distinct ps" "\<forall>(r, c) \<in> set ps. cellAt (board g) r c \<noteq> None"
    and "wfBoard (config g) (board g)"
  shows "\<exists>b'. forEachM adjacentStep ps g = Some (g\<lparr>board := b'\<rparr>) \<and>
              map length b' = map length (board g) \<and>
              (\<forall>r c. cellAt b' r c = (if (r, c) \<in> set ps
                                      then map_option (setAdjacent (board g) r c) (cellAt (board g) r c)
                                      else cellAt (board g) r c))"
  using assms
proof (induction ps arbitrary: g)
  case Nil
  show ?case by (rule exI[of _ "board g"]) simp
next
  case (Cons p ps)
  obtain r0 c0 where p: "p = (r0, c0)" by (cases p)
  from Cons.prems(2) p obtain x where x: "cellAt (board g) r0 c0 = Some x" by auto
  note at1 = cellAt_setCell[OF x]
  from Cons.prems(1) have d: "distinct ps" and notin: "(r0, c0) \<notin> set ps"
    by (auto simp: p)
  define y where "y = setAdjacent (board g) r0 c0 x"
  have ym: "isMine y = isMine x" by (simp add: y_def setAdjacent_def)
  define g1 where "g1 = (if isMine x then g else g\<lparr>board := setCell (board g) r0 c0 y\<rparr>)"
  have step: "adjacentStep p g = Some g1"
    by (simp add: adjacentStep_def p x countAdjacentMines_eq[OF Cons.prems(3)] g1_def y_def setAdjacent_def)
  have g1: "g1 = g\<lparr>board := board g1\<rparr>" by (simp add: g1_def)
  have cell1: "cellAt (board g1) r c = (if r = r0 \<and> c = c0 then Some y else cellAt (board g) r c)" for r c
    using x by (auto simp: g1_def at1 y_def setAdjacent_def)
  have len1: "map length (board g1) = map length (board g)" by (simp add: g1_def)
  have wf1: "wfBoard (config g1) (board g1)"
    using Cons.prems(3) by (simp add: g1_def)
  have mine1: "mineAt (board g1) r c = mineAt (board g) r c" for r c
    using x ym by (auto simp: mineAt_def cell1)
  have adj1: "setAdjacent (board g1) r c = setAdjacent (board g) r c" for r c
    by (rule ext) (simp add: setAdjacent_def minedNeighbours_cong[of "board g1" "board g", OF mine1])
  have pre: "\<forall>(r, c) \<in> set ps. cellAt (board g1) r c \<noteq> None"
    using Cons.prems(2) by (auto simp: cell1)
  from Cons.IH[OF d pre wf1] obtain b' where
    b': "forEachM adjacentStep ps g1 = Some (g1\<lparr>board := b'\<rparr>)"
        "map length b' = map length (board g1)"
        "\<And>r c. cellAt b' r c = (if (r, c) \<in> set ps
                                      then map_option (setAdjacent (board g1) r c) (cellAt (board g1) r c)
                                      else cellAt (board g1) r c)"
    by blast
  have "g1\<lparr>board := b'\<rparr> = g\<lparr>board := b'\<rparr>"
    by (subst g1) simp
  then have 1: "forEachM adjacentStep (p # ps) g = Some (g\<lparr>board := b'\<rparr>)"
    using step b'(1) by simp
  have 2: "map length b' = map length (board g)" using b'(2) len1 by simp
  have 3: "cellAt b' r c = (if (r, c) \<in> set (p # ps)
                                      then map_option (setAdjacent (board g) r c) (cellAt (board g) r c)
                                      else cellAt (board g) r c)" for r c
    using b'(3)[of r c] notin x by (auto simp: cell1 adj1 p y_def)
  from 1 2 3 show ?case by blast
qed

lemma countCells_zero:
  assumes "\<And>r c x. cellAt b r c = Some x \<Longrightarrow> \<not> P x"
  shows "countCells P b = 0"
proof -
  have "\<not> P x" if "x \<in> set (concat b)" for x
  proof -
    from that obtain row where row: "row \<in> set b" "x \<in> set row" by auto
    then obtain i where i: "i < length b" "b ! i = row" by (auto simp: in_set_conv_nth)
    from row(2) obtain j where j: "j < length row" "row ! j = x" by (auto simp: in_set_conv_nth)
    have "cellAt b (int i) (int j) = Some x"
      using i j by (simp add: cellAt_def)
    then show ?thesis by (rule assms)
  qed
  then show ?thesis
    by (simp add: countCells_def filter_empty_conv[THEN iffD2])
qed

lemma countCells_cong:
  assumes len: "map length b' = map length b"
    and cells: "\<And>r c x. cellAt b r c = Some x \<Longrightarrow> \<exists>y. cellAt b' r c = Some y \<and> P y = P x"
  shows "countCells P b' = countCells P b"
proof -
  have l: "length b' = length b" using len by (metis length_map)
  have ll: "length (b' ! i) = length (b ! i)" if "i < length b" for i
    using len that l by (metis nth_map)
  have "map (map P) b' = map (map P) b"
  proof (rule nth_equalityI)
    show "length (map (map P) b') = length (map (map P) b)" using l by simp
  next
    fix i assume "i < length (map (map P) b')"
    then have i: "i < length b" using l by simp
    have "map P (b' ! i) = map P (b ! i)"
    proof (rule nth_equalityI)
      show "length (map P (b' ! i)) = length (map P (b ! i))" using ll[OF i] by simp
    next
      fix j assume "j < length (map P (b' ! i))"
      then have j: "j < length (b ! i)" using ll[OF i] by simp
      have "cellAt b (int i) (int j) = Some (b ! i ! j)" using i j by (simp add: cellAt_def)
      from cells[OF this] have "P (b' ! i ! j) = P (b ! i ! j)"
        using i j l ll[OF i] by (simp add: cellAt_def)
      then show "map P (b' ! i) ! j = map P (b ! i) ! j" using j ll[OF i] by simp
    qed
    then show "map (map P) b' ! i = map (map P) b ! i" using i l by simp
  qed
  then have "concat (map (map P) b') = concat (map (map P) b)" by simp
  then have "map P (concat b') = map P (concat b)" by (simp add: map_concat)
  then have "length (filter id (map P (concat b'))) = length (filter id (map P (concat b)))" by simp
  then show ?thesis by (simp add: countCells_def filter_map comp_def)
qed

lemma exclusionsFor_cases:
  "exclusionsFor cfg er ec = cellIndex cfg ` set (clippedNeighbourhood cfg er ec) \<and>
     mines cfg \<le> rows cfg * cols cfg - int (length (clippedNeighbourhood cfg er ec))
   \<or> exclusionsFor cfg er ec = {cellIndex cfg (er, ec)} \<and>
     rows cfg * cols cfg - int (length (clippedNeighbourhood cfg er ec)) < mines cfg"
proof -
  have 1: "int (card (exclusionsAround cfg er ec)) = int (length (clippedNeighbourhood cfg er ec))"
    by (simp add: card_exclusionsAround)
  have 2: "er * cols cfg + ec = cellIndex cfg (er, ec)"
    by (simp add: cellIndex_def)
  show ?thesis
  proof (cases "rows cfg * cols cfg - int (length (clippedNeighbourhood cfg er ec)) < mines cfg")
    case True
    then have "exclusionsFor cfg er ec = {cellIndex cfg (er, ec)}"
      by (simp add: exclusionsFor_def Let_def 1 2)
    with True show ?thesis by simp
  next
    case False
    then have "exclusionsFor cfg er ec = exclusionsAround cfg er ec"
      by (simp add: exclusionsFor_def Let_def 1)
    with False show ?thesis by (simp add: exclusionsAround_eq)
  qed
qed

lemma clicked_in_exclusionsFor:
  assumes "inBounds cfg er ec"
  shows "cellIndex cfg (er, ec) \<in> exclusionsFor cfg er ec"
proof -
  have "(er, ec) \<in> set (clippedNeighbourhood cfg er ec)"
    using assms by (simp add: in_clippedNeighbourhood)
  then show ?thesis
    using exclusionsFor_cases[of cfg er ec] by auto
qed

lemma exclusionsFor_subset:
  assumes "inBounds cfg er ec"
  shows "exclusionsFor cfg er ec \<subseteq> cellIndex cfg ` {(r, c). inBounds cfg r c}"
proof -
  have "set (clippedNeighbourhood cfg er ec) \<subseteq> {(r, c). inBounds cfg r c}"
    by (auto simp: in_clippedNeighbourhood)
  then have "cellIndex cfg ` set (clippedNeighbourhood cfg er ec) \<subseteq> cellIndex cfg ` {(r, c). inBounds cfg r c}"
    by (rule image_mono)
  moreover have "{cellIndex cfg (er, ec)} \<subseteq> cellIndex cfg ` {(r, c). inBounds cfg r c}"
    using assms by blast
  ultimately show ?thesis
    using exclusionsFor_cases[of cfg er ec] by metis
qed

lemma enough_positions:
  assumes inb: "inBounds cfg er ec" and m: "mines cfg < rows cfg * cols cfg"
  shows "mines cfg \<le> int (length (candidatePositions cfg (exclusionsFor cfg er ec)))"
proof -
  let ?E = "exclusionsFor cfg er ec"
  from inb have pos: "0 < rows cfg" "0 < cols cfg" by (auto simp: inBounds_def)
  have "length (candidatePositions cfg ?E) + card ?E = nat (rows cfg) * nat (cols cfg)"
    by (rule length_candidatePositions[OF exclusionsFor_subset[OF inb]])
  then have "int (length (candidatePositions cfg ?E)) + int (card ?E) = int (nat (rows cfg) * nat (cols cfg))"
    by (metis of_nat_add)
  also have "\<dots> = rows cfg * cols cfg" using pos by simp
  finally have l: "int (length (candidatePositions cfg ?E)) = rows cfg * cols cfg - int (card ?E)"
    by simp
  from exclusionsFor_cases[of cfg er ec] show ?thesis
  proof
    assume a: "?E = cellIndex cfg ` set (clippedNeighbourhood cfg er ec) \<and>
     mines cfg \<le> rows cfg * cols cfg - int (length (clippedNeighbourhood cfg er ec))"
    then have "card ?E = length (clippedNeighbourhood cfg er ec)"
      using card_exclusionsAround[of cfg er ec] by (simp add: exclusionsAround_eq)
    then show ?thesis using a l by simp
  next
    assume "?E = {cellIndex cfg (er, ec)} \<and>
     rows cfg * cols cfg - int (length (clippedNeighbourhood cfg er ec)) < mines cfg"
    then have "card ?E = 1" by simp
    then show ?thesis using l m by simp
  qed
qed

lemma markLoop_frame:
  assumes "forEachM (placeMineAt cfg positions) is g = Some g1"
  shows "\<exists>b1. g1 = g\<lparr>board := b1\<rparr> \<and> map length b1 = map length (board g)"
proof (rule forEachM_inv[OF assms, where I = "\<lambda>a. \<exists>b. a = g\<lparr>board := b\<rparr> \<and> map length b = map length (board g)"])
  show "\<exists>b. g = g\<lparr>board := b\<rparr> \<and> map length b = map length (board g)"
    by (rule exI[of _ "board g"]) simp
next
  fix i a b
  assume a: "\<exists>ba. a = g\<lparr>board := ba\<rparr> \<and> map length ba = map length (board g)"
    and s: "placeMineAt cfg positions i a = Some b"
  from a obtain ba where ba: "a = g\<lparr>board := ba\<rparr>" "map length ba = map length (board g)" by blast
  from s obtain r c x where "b = a\<lparr>board := setCell (board a) r c x\<rparr>"
    by (auto simp: placeMineAt_def Let_def split: if_splits option.splits)
  then have "b = g\<lparr>board := setCell ba r c x\<rparr> \<and> map length (setCell ba r c x) = map length (board g)"
    using ba by simp
  then show "\<exists>bb. b = g\<lparr>board := bb\<rparr> \<and> map length bb = map length (board g)" by blast
qed

lemma placeMines_adjacent:
  assumes wf: "wfBoard (config g) (board g)" and ok: "placeMines env g er ec = Some g'"
    and cell: "cellAt (board g') r c = Some y" "\<not> isMine y"
  shows "adjacent y = minedNeighbours (board g') r c"
proof -
  let ?cfg = "config g"
  let ?pos = "shuffle (shuffleRandom env) (candidatePositions ?cfg (exclusionsFor ?cfg er ec))"
  from ok obtain g1 g2 where
    m: "forEachM (placeMineAt ?cfg ?pos) [0..mines ?cfg - 1] g = Some g1"
    and a: "forEachM adjacentStep (gridCoords (rows ?cfg) (cols ?cfg)) g1 = Some g2"
    and g': "g' = g2\<lparr>minesPlaced := True\<rparr>"
    by (auto simp: placeMines_def Let_def split: option.splits)
  from markLoop_frame[OF m] obtain b1 where b1: "g1 = g\<lparr>board := b1\<rparr>" "map length b1 = map length (board g)"
    by blast
  have wf1: "wfBoard (config g1) (board g1)"
    using wf b1 by (simp add: wfBoard_def)
  have cfg1: "config g1 = ?cfg" using b1 by simp
  have pre: "\<forall>(r, c) \<in> set (gridCoords (rows ?cfg) (cols ?cfg)). cellAt (board g1) r c \<noteq> None"
    using wfBoard_cellAt[OF wf1] by (auto simp: in_gridCoords cfg1)
  from adjacentLoop[OF distinct_gridCoords pre wf1] a obtain b2 where
    b2: "g2 = g1\<lparr>board := b2\<rparr>" "map length b2 = map length (board g1)"
        "\<And>r c. cellAt b2 r c = (if (r, c) \<in> set (gridCoords (rows ?cfg) (cols ?cfg))
                                      then map_option (setAdjacent (board g1) r c) (cellAt (board g1) r c)
                                      else cellAt (board g1) r c)"
    by auto
  have bg': "board g' = b2" using g' b2(1) by simp
  have same: "mineAt b2 r c = mineAt (board g1) r c" for r c
    unfolding mineAt_def b2(3)[of r c]
    by (cases "cellAt (board g1) r c") (auto simp: setAdjacent_def)
  have inb: "(r, c) \<in> set (gridCoords (rows ?cfg) (cols ?cfg))"
  proof -
    have "cellAt (board g1) r c \<noteq> None"
      using cell(1) map_length_cellAt_None[OF b2(2), of r c] by (simp add: bg')
    then show ?thesis using wfBoard_cellAt[OF wf1, of r c] by (simp add: in_gridCoords cfg1)
  qed
  from cell(1) inb obtain x where x: "cellAt (board g1) r c = Some x" "y = setAdjacent (board g1) r c x"
    unfolding bg' b2(3)[of r c] by auto
  have "adjacent y = minedNeighbours (board g1) r c"
    using x(2) cell(2) by (auto simp: setAdjacent_def split: if_splits)
  also have "\<dots> = minedNeighbours (board g') r c"
    unfolding bg' by (rule minedNeighbours_cong[symmetric]) (rule same)
  finally show ?thesis .
qed

lemma setAdjacent_fields [simp]:
  "isOpen (setAdjacent b r c z) = isOpen z"
  "isFlagged (setAdjacent b r c z) = isFlagged z"
  "isWrongFlag (setAdjacent b r c z) = isWrongFlag z"
  "isMine (setAdjacent b r c z) = isMine z"
  by (simp_all add: setAdjacent_def)

lemma placeMines_result:
  assumes wf: "wfBoard (config g) (board g)"
    and inb: "inBounds (config g) er ec"
    and m: "mines (config g) < rows (config g) * cols (config g)"
    and nom0: "\<forall>r c x. cellAt (board g) r c = Some x \<longrightarrow> \<not> isMine x"
  shows "\<exists>b'. placeMines env g er ec = Some (g\<lparr>board := b', minesPlaced := True\<rparr>) \<and>
      map length b' = map length (board g) \<and>
      (\<forall>r c x. cellAt (board g) r c = Some x \<longrightarrow>
          (\<exists>y. cellAt b' r c = Some y \<and> isOpen y = isOpen x \<and> isFlagged y = isFlagged x \<and>
               isWrongFlag y = isWrongFlag x \<and>
               (cellIndex (config g) (r, c) \<in> exclusionsFor (config g) er ec \<longrightarrow> \<not> isMine y))) \<and>
      int (countCells isMine b') = max 0 (mines (config g))"
proof -
  have nom: "\<And>r c x. cellAt (board g) r c = Some x \<Longrightarrow> \<not> isMine x"
    using nom0 by blast
  let ?cfg = "config g"
  let ?E = "exclusionsFor ?cfg er ec"
  let ?cand = "candidatePositions ?cfg ?E"
  let ?pos = "shuffle (shuffleRandom env) ?cand"
  let ?is = "[0..mines ?cfg - 1]"
  let ?at = "\<lambda>i. ?pos ! nat i"
  have len: "mines ?cfg \<le> int (length ?pos)"
    using enough_positions[OF inb m] by (simp add: length_shuffle)
  have setpos: "set ?pos = cellIndex ?cfg ` {(r, c). inBounds ?cfg r c} - ?E"
    by (simp add: set_shuffle set_candidatePositions)
  have dpos: "distinct ?pos"
    by (simp add: distinct_shuffle distinct_candidatePositions)
  have h2: "\<forall>i \<in> set ?is. 0 \<le> i \<and> nat i < length ?pos \<and>
            ?pos ! nat i \<in> cellIndex ?cfg ` {(r, c). inBounds ?cfg r c}"
  proof
    fix i assume "i \<in> set ?is"
    then have i: "0 \<le> i" "nat i < length ?pos" using len by auto
    then have "?pos ! nat i \<in> set ?pos" by (meson nth_mem)
    then show "0 \<le> i \<and> nat i < length ?pos \<and>
            ?pos ! nat i \<in> cellIndex ?cfg ` {(r, c). inBounds ?cfg r c}"
      using i setpos by blast
  qed
  have "inj_on ?at (set ?is)"
  proof (rule inj_onI)
    fix i j assume a: "i \<in> set ?is" "j \<in> set ?is" "?at i = ?at j"
    then have "nat i < length ?pos" "nat j < length ?pos" using h2 by auto
    then have "nat i = nat j" using a(3) dpos by (simp add: nth_eq_iff_index_eq)
    then show "i = j" using a(1,2) by auto
  qed
  then have h3: "distinct (map ?at ?is)"
    by (simp add: distinct_map)
  have h4: "\<forall>r c x. cellAt (board g) r c = Some x \<and> cellIndex ?cfg (r, c) \<in> ?at ` set ?is
            \<longrightarrow> \<not> isMine x"
    using nom by blast
  from markLoop[OF wf h2 h3 h4] obtain b1 where
    b1: "forEachM (placeMineAt ?cfg ?pos) ?is g = Some (g\<lparr>board := b1\<rparr>)"
        "map length b1 = map length (board g)"
        "\<And>r c. cellAt b1 r c =
                 (if cellIndex ?cfg (r, c) \<in> ?at ` set ?is
                  then map_option (\<lambda>x. x\<lparr>isMine := True\<rparr>) (cellAt (board g) r c)
                  else cellAt (board g) r c)"
        "countCells isMine b1 = countCells isMine (board g) + length ?is"
    by blast
  let ?g1 = "g\<lparr>board := b1\<rparr>"
  have wf1: "wfBoard (config ?g1) (board ?g1)"
    using wf b1(2) by (simp add: wfBoard_def)
  have pre: "\<forall>(r, c) \<in> set (gridCoords (rows ?cfg) (cols ?cfg)). cellAt (board ?g1) r c \<noteq> None"
    using wfBoard_cellAt[OF wf1] by (auto simp: in_gridCoords)
  from adjacentLoop[OF distinct_gridCoords pre wf1] obtain b2 where
    b2: "forEachM adjacentStep (gridCoords (rows ?cfg) (cols ?cfg)) ?g1 = Some (?g1\<lparr>board := b2\<rparr>)"
        "map length b2 = map length (board ?g1)"
        "\<And>r c. cellAt b2 r c = (if (r, c) \<in> set (gridCoords (rows ?cfg) (cols ?cfg))
                                      then map_option (setAdjacent (board ?g1) r c) (cellAt (board ?g1) r c)
                                      else cellAt (board ?g1) r c)"
    by blast
  have 1: "placeMines env g er ec = Some (g\<lparr>board := b2, minesPlaced := True\<rparr>)"
    using b1(1) b2(1) by (simp add: placeMines_def Let_def)
  have 2: "map length b2 = map length (board g)"
    using b1(2) b2(2) by simp
  have marked: "?at ` set ?is \<subseteq> set ?pos"
    using h2 by (auto intro: nth_mem)
  have 3: "\<exists>y. cellAt b2 r c = Some y \<and> isOpen y = isOpen x \<and> isFlagged y = isFlagged x \<and>
               isWrongFlag y = isWrongFlag x \<and>
               (cellIndex ?cfg (r, c) \<in> ?E \<longrightarrow> \<not> isMine y)"
    if x: "cellAt (board g) r c = Some x" for r c x
  proof -
    define y1 where "y1 = (if cellIndex ?cfg (r, c) \<in> ?at ` set ?is then x\<lparr>isMine := True\<rparr> else x)"
    have c1: "cellAt b1 r c = Some y1"
      using b1(3)[of r c] x by (simp add: y1_def)
    have "cellAt b2 r c = Some y1 \<or> cellAt b2 r c = Some (setAdjacent b1 r c y1)"
      using b2(3)[of r c] c1 by auto
    then obtain y where y: "cellAt b2 r c = Some y" "y = y1 \<or> y = setAdjacent b1 r c y1"
      by blast
    have e: "cellIndex ?cfg (r, c) \<in> ?E \<Longrightarrow> y1 = x"
      using marked setpos by (auto simp: y1_def)
    have f1: "isOpen y1 = isOpen x \<and> isFlagged y1 = isFlagged x \<and> isWrongFlag y1 = isWrongFlag x"
      by (simp add: y1_def)
    have "isOpen y = isOpen x \<and> isFlagged y = isFlagged x \<and> isWrongFlag y = isWrongFlag x"
      using y(2) f1 by auto
    moreover have "cellIndex ?cfg (r, c) \<in> ?E \<longrightarrow> \<not> isMine y"
      using y(2) e nom[OF x] by auto
    ultimately show ?thesis using y(1) by blast
  qed
  have "countCells isMine b2 = countCells isMine b1"
  proof (rule countCells_cong)
    show "map length b2 = map length b1" using b2(2) by simp
  next
    fix r c x assume "cellAt b1 r c = Some x"
    then show "\<exists>y. cellAt b2 r c = Some y \<and> isMine y = isMine x"
      using b2(3)[of r c] by auto
  qed
  moreover have "countCells isMine (board g) = 0"
    by (rule countCells_zero) (rule nom)
  ultimately have 4: "int (countCells isMine b2) = max 0 (mines ?cfg)"
    using b1(4) by simp
  from 1 2 3 4 show ?thesis by blast
qed

section \<open>First-click safety and adjacency numbers\<close>

text \<open>
  C1.  On a board of the configured dimensions that holds no mine yet, with the first click
  in bounds and fewer mines configured than there are cells, \<open>placeMines\<close> returns normally
  for every outcome of the shuffle: it changes only the board and sets \<open>minesPlaced\<close>, the
  board keeps its dimensions and holds exactly \<open>mines\<close> mines afterwards (none when
  \<open>mines\<close> is not positive), and the clicked cell is no mine.  When the cells outside the
  clipped 3x3 block around the click are enough for all mines (no fallback), no cell of
  that block is a mine.  The configurations with \<open>rows * cols - 9 < mines < rows * cols\<close>
  are among those covered: all their mines are placed and the clicked cell stays safe.
\<close>

theorem placeMines_first_click_safe:
  assumes "wfBoard (config g) (board g)"
    and "\<forall>r c x. cellAt (board g) r c = Some x \<longrightarrow> \<not> isMine x"
    and "inBounds (config g) firstRow firstCol"
    and "mines (config g) < rows (config g) * cols (config g)"
  shows "\<exists>b'. placeMines env g firstRow firstCol = Some (g\<lparr>board := b', minesPlaced := True\<rparr>) \<and>
           wfBoard (config g) b' \<and>
           int (countCells isMine b') = max 0 (mines (config g)) \<and>
           (\<exists>y. cellAt b' firstRow firstCol = Some y \<and> \<not> isMine y) \<and>
           (mines (config g) \<le> rows (config g) * cols (config g)
                 - int (length (clippedNeighbourhood (config g) firstRow firstCol)) \<longrightarrow>
              (\<forall>(r, c) \<in> set (clippedNeighbourhood (config g) firstRow firstCol).
                 \<exists>y. cellAt b' r c = Some y \<and> \<not> isMine y))"
proof -
  let ?cfg = "config g"
  let ?E = "exclusionsFor ?cfg firstRow firstCol"
  from placeMines_result[OF assms(1) assms(3) assms(4) assms(2), where env = env] obtain b' where
    b': "placeMines env g firstRow firstCol = Some (g\<lparr>board := b', minesPlaced := True\<rparr>)"
        "map length b' = map length (board g)"
        "\<And>r c x. cellAt (board g) r c = Some x \<Longrightarrow>
           \<exists>y. cellAt b' r c = Some y \<and> (cellIndex ?cfg (r, c) \<in> ?E \<longrightarrow> \<not> isMine y)"
        "int (countCells isMine b') = max 0 (mines ?cfg)"
    by blast
  have wf': "wfBoard ?cfg b'"
    using assms(1) b'(2) by (simp add: wfBoard_def)
  have safe: "\<exists>y. cellAt b' r c = Some y \<and> \<not> isMine y"
    if "inBounds ?cfg r c" "cellIndex ?cfg (r, c) \<in> ?E" for r c
  proof -
    from that(1) obtain x where "cellAt (board g) r c = Some x"
      using wfBoard_cellAt[OF assms(1), of r c] by (auto simp: inBounds_def)
    from b'(3)[OF this] that(2) show ?thesis by blast
  qed
  have 1: "\<exists>y. cellAt b' firstRow firstCol = Some y \<and> \<not> isMine y"
    using safe[OF assms(3) clicked_in_exclusionsFor[OF assms(3)]] .
  have 2: "\<forall>(r, c) \<in> set (clippedNeighbourhood ?cfg firstRow firstCol).
                 \<exists>y. cellAt b' r c = Some y \<and> \<not> isMine y"
    if nf: "mines ?cfg \<le> rows ?cfg * cols ?cfg - int (length (clippedNeighbourhood ?cfg firstRow firstCol))"
  proof -
    have E: "?E = cellIndex ?cfg ` set (clippedNeighbourhood ?cfg firstRow firstCol)"
      using exclusionsFor_cases[of ?cfg firstRow firstCol] nf by auto
    show ?thesis
    proof (intro ballI, clarify)
      fix r c assume rc: "(r, c) \<in> set (clippedNeighbourhood ?cfg firstRow firstCol)"
      then have "inBounds ?cfg r c" by (simp add: in_clippedNeighbourhood)
      moreover have "cellIndex ?cfg (r, c) \<in> ?E" unfolding E using rc by blast
      ultimately show "\<exists>y. cellAt b' r c = Some y \<and> \<not> isMine y" by (rule safe)
    qed
  qed
  show ?thesis
    using b'(1) b'(4) wf' 1 2 by blast
qed

theorem placeMines_first_click_safe_witness:
  "(\<exists>b'. placeMines sampleEnv (freshGlobals easyConfig) 4 4
            = Some ((freshGlobals easyConfig)\<lparr>board := b', minesPlaced := True\<rparr>) \<and>
         countCells isMine b' = 10 \<and>
         (\<exists>y. cellAt b' 4 4 = Some y \<and> \<not> isMine y) \<and>
         (\<exists>y. cellAt b' 3 5 = Some y \<and> \<not> isMine y)) \<and>
   (\<exists>b'. placeMines sampleEnv (freshGlobals customConfig) 0 0
            = Some ((freshGlobals customConfig)\<lparr>board := b', minesPlaced := True\<rparr>) \<and>
         countCells isMine b' = 34 \<and>
         (\<exists>y. cellAt b' 0 0 = Some y \<and> \<not> isMine y))"
proof -
  have a: "inBounds (config (freshGlobals easyConfig)) 4 4"
    by (simp add: inBounds_def easyConfig_def)
  have b: "mines (config (freshGlobals easyConfig))
            < rows (config (freshGlobals easyConfig)) * cols (config (freshGlobals easyConfig))"
    by (simp add: easyConfig_def)
  have c: "mines (config (freshGlobals easyConfig))
            \<le> rows (config (freshGlobals easyConfig)) * cols (config (freshGlobals easyConfig))
              - int (length (clippedNeighbourhood (config (freshGlobals easyConfig)) 4 4))"
    by (simp add: easyConfig_def clippedNeighbourhood_def inBounds_def)
  have d: "(3, 5) \<in> set (clippedNeighbourhood (config (freshGlobals easyConfig)) 4 4)"
    by (simp add: in_clippedNeighbourhood inBounds_def easyConfig_def)
  have a': "inBounds (config (freshGlobals customConfig)) 0 0"
    by (simp add: inBounds_def customConfig_def)
  have b': "mines (config (freshGlobals customConfig))
            < rows (config (freshGlobals customConfig)) * cols (config (freshGlobals customConfig))"
    by (simp add: customConfig_def)
  from placeMines_first_click_safe[OF wf_freshGlobals fresh_no_mines a b, where env = sampleEnv]
  obtain b1 where b1:
    "placeMines sampleEnv (freshGlobals easyConfig) 4 4
       = Some ((freshGlobals easyConfig)\<lparr>board := b1, minesPlaced := True\<rparr>)"
    "int (countCells isMine b1) = max 0 (mines (config (freshGlobals easyConfig)))"
    "\<exists>y. cellAt b1 4 4 = Some y \<and> \<not> isMine y"
    "mines (config (freshGlobals easyConfig))
            \<le> rows (config (freshGlobals easyConfig)) * cols (config (freshGlobals easyConfig))
              - int (length (clippedNeighbourhood (config (freshGlobals easyConfig)) 4 4)) \<longrightarrow>
     (\<forall>(r, c) \<in> set (clippedNeighbourhood (config (freshGlobals easyConfig)) 4 4).
                 \<exists>y. cellAt b1 r c = Some y \<and> \<not> isMine y)"
    by blast
  have n1: "countCells isMine b1 = 10"
    using b1(2) by (simp add: easyConfig_def)
  have s1: "\<exists>y. cellAt b1 3 5 = Some y \<and> \<not> isMine y"
    using b1(4) c d by fast
  from placeMines_first_click_safe[OF wf_freshGlobals fresh_no_mines a' b', where env = sampleEnv]
  obtain b2 where b2:
    "placeMines sampleEnv (freshGlobals customConfig) 0 0
       = Some ((freshGlobals customConfig)\<lparr>board := b2, minesPlaced := True\<rparr>)"
    "int (countCells isMine b2) = max 0 (mines (config (freshGlobals customConfig)))"
    "\<exists>y. cellAt b2 0 0 = Some y \<and> \<not> isMine y"
    by blast
  have n2: "countCells isMine b2 = 34"
    using b2(2) by (simp add: customConfig_def)
  from b1(1) n1 b1(3) s1 b2(1) n2 b2(3) show ?thesis by blast
qed

text \<open>
  C3.  Whenever \<open>placeMines\<close> has completed on a board of the configured dimensions, the
  \<open>adjacent\<close> field of every cell that is no mine equals the number of mines among the up to
  eight cells around it, counted afresh on the resulting board.
\<close>

theorem placeMines_adjacent_counts:
  assumes "wfBoard (config g) (board g)"
    and "placeMines env g firstRow firstCol = Some g'"
  shows "\<forall>r c y. cellAt (board g') r c = Some y \<and> \<not> isMine y
           \<longrightarrow> adjacent y = minedNeighbours (board g') r c"
  using placeMines_adjacent[OF assms] by blast

theorem placeMines_adjacent_counts_witness:
  "\<exists>g' y. placeMines sampleEnv (freshGlobals easyConfig) 4 4 = Some g' \<and>
          cellAt (board g') 4 4 = Some y \<and> \<not> isMine y \<and>
          adjacent y = minedNeighbours (board g') 4 4"
proof -
  have a: "inBounds (config (freshGlobals easyConfig)) 4 4"
    by (simp add: inBounds_def easyConfig_def)
  have b: "mines (config (freshGlobals easyConfig))
            < rows (config (freshGlobals easyConfig)) * cols (config (freshGlobals easyConfig))"
    by (simp add: easyConfig_def)
  have x: "cellAt (board (freshGlobals easyConfig)) 4 4 \<noteq> None"
    by (simp add: cellAt_createEmptyBoard easyConfig_def)
  from placeMines_result[OF wf_freshGlobals a b fresh_no_mines, where env = sampleEnv] x
  obtain g' y where g': "placeMines sampleEnv (freshGlobals easyConfig) 4 4 = Some g'"
    and y: "cellAt (board g') 4 4 = Some y" "\<not> isMine y"
    using clicked_in_exclusionsFor[OF a] by fastforce
  from placeMines_adjacent_counts[OF wf_freshGlobals g'] y
  have "adjacent y = minedNeighbours (board g') 4 4" by blast
  with g' y show ?thesis by blast
qed

section \<open>Flood fill\<close>

lemma opensOnly_refl: "opensOnly g g"
proof -
  have "g = g\<lparr>board := board g, openCount := openCount g\<rparr>" by simp
  then have "\<exists>b' n. g = g\<lparr>board := b', openCount := n\<rparr>" by blast
  then show ?thesis unfolding opensOnly_def by simp
qed

lemma opensOnly_trans:
  assumes "opensOnly a b" "opensOnly b c"
  shows "opensOnly a c"
proof -
  from assms obtain b1 n1 b2 n2 where e: "b = a\<lparr>board := b1, openCount := n1\<rparr>" "c = b\<lparr>board := b2, openCount := n2\<rparr>"
    unfolding opensOnly_def by blast
  then have "c = a\<lparr>board := b2, openCount := n2\<rparr>" by simp
  then have 1: "\<exists>b' n. c = a\<lparr>board := b', openCount := n\<rparr>" by blast
  have 2: "map length (board c) = map length (board a)"
    using assms unfolding opensOnly_def by simp
  have 3: "cellAt (board c) r col = Some x \<or>
        (\<not> isOpen x \<and> \<not> isFlagged x \<and> \<not> isMine x \<and>
         cellAt (board c) r col = Some (x\<lparr>isOpen := True\<rparr>))" if "cellAt (board a) r col = Some x" for r col x
  proof -
    from assms(1) that consider "cellAt (board b) r col = Some x"
      | "\<not> isOpen x" "\<not> isFlagged x" "\<not> isMine x" "cellAt (board b) r col = Some (x\<lparr>isOpen := True\<rparr>)"
      unfolding opensOnly_def by blast
    then show ?thesis
    proof cases
      case 1
      with assms(2) show ?thesis unfolding opensOnly_def by blast
    next
      case 2
      from assms(2) 2(4) have "cellAt (board c) r col = Some (x\<lparr>isOpen := True\<rparr>)"
        unfolding opensOnly_def by fastforce
      with 2 show ?thesis by simp
    qed
  qed
  have 4: "openCount c - int (countCells isOpen (board c)) = openCount a - int (countCells isOpen (board a))"
    using assms unfolding opensOnly_def by simp
  from 1 2 3 4 show ?thesis unfolding opensOnly_def by blast
qed

lemma opensOnly_open:
  assumes "cellAt (board g) r c = Some x" "\<not> isOpen x" "\<not> isFlagged x" "\<not> isMine x"
  shows "opensOnly g (g\<lparr>board := setCell (board g) r c (x\<lparr>isOpen := True\<rparr>), openCount := openCount g + 1\<rparr>)"
proof -
  have "countCells isOpen (setCell (board g) r c (x\<lparr>isOpen := True\<rparr>)) = countCells isOpen (board g) + 1"
    using countCells_setCell[OF assms(1), of isOpen "x\<lparr>isOpen := True\<rparr>"] assms(2) by simp
  moreover have "\<forall>r' c' y. cellAt (board g) r' c' = Some y \<longrightarrow>
        cellAt (setCell (board g) r c (x\<lparr>isOpen := True\<rparr>)) r' c' = Some y \<or>
        (\<not> isOpen y \<and> \<not> isFlagged y \<and> \<not> isMine y \<and>
         cellAt (setCell (board g) r c (x\<lparr>isOpen := True\<rparr>)) r' c' = Some (y\<lparr>isOpen := True\<rparr>))"
    using assms by (auto simp: cellAt_setCell[OF assms(1)])
  ultimately show ?thesis
    unfolding opensOnly_def by (simp del: ex_simps) blast
qed

lemma floodVisit_opensOnly:
  assumes "floodVisit p d (g, st) = Some (g', st')"
  shows "opensOnly g g'"
proof -
  obtain row col dr dc where p: "p = (row, col)" "d = (dr, dc)"
    by (cases p, cases d) auto
  from floodVisit_cases[OF assms[unfolded p]] show ?thesis
    using opensOnly_refl opensOnly_open by auto
qed

lemma floodLoop_opensOnly:
  "floodLoop (g, st) = Some g' \<Longrightarrow> opensOnly g g'"
proof (induction "(g, st)" arbitrary: g st rule: floodLoop.induct)
  case (1 g)
  then show ?case by (simp add: opensOnly_refl)
next
  case (2 g p rest)
  from "2.prems" obtain g1 st1 where
    a: "forEachM (floodVisit p) offsets (g, rest) = Some (g1, st1)" and b: "floodLoop (g1, st1) = Some g'"
    by (auto split: option.splits)
  have "(\<lambda>(x, s). opensOnly g x) (g1, st1)"
    by (rule forEachM_inv[OF a]) (auto simp: opensOnly_refl intro: opensOnly_trans dest: floodVisit_opensOnly)
  then have "opensOnly g g1" by simp
  moreover have "opensOnly g1 g'"
    using "2.hyps"[OF a b] .
  ultimately show ?case by (rule opensOnly_trans)
qed

lemma floodVisit_total:
  assumes "wfBoard (config g) (board g)"
  shows "\<exists>z. floodVisit p d (g, st) = Some z"
proof -
  obtain row col dr dc where p: "p = (row, col)" "d = (dr, dc)"
    by (cases p, cases d) auto
  show ?thesis
    using wfBoard_cellAt[OF assms, of "row + dr" "col + dc"]
    by (auto simp: floodVisit_def p Let_def split: option.splits)
qed

lemma opensOnly_wf:
  assumes "opensOnly g g'"
  shows "wfBoard (config g') (board g') = wfBoard (config g) (board g)"
proof -
  from assms obtain b' n where "g' = g\<lparr>board := b', openCount := n\<rparr>"
    unfolding opensOnly_def by blast
  then have "config g' = config g" by simp
  moreover have "map length (board g') = map length (board g)"
    using assms unfolding opensOnly_def by blast
  ultimately show ?thesis by (simp add: wfBoard_def)
qed

lemma floodLoop_total:
  "wfBoard (config g) (board g) \<Longrightarrow> \<exists>g'. floodLoop (g, st) = Some g'"
proof (induction "(g, st)" arbitrary: g st rule: floodLoop.induct)
  case (1 g)
  then show ?case by simp
next
  case (2 g p rest)
  have "\<exists>z. forEachM (floodVisit p) offsets (g, rest) = Some z \<and> (\<lambda>(x, s). opensOnly g x) z"
  proof (rule forEachM_total)
    show "(\<lambda>(x, s). opensOnly g x) (g, rest)" by (simp add: opensOnly_refl)
  next
    fix d and a :: "Globals \<times> (int \<times> int) list"
    assume "d \<in> set offsets" and a: "(\<lambda>(x, s). opensOnly g x) a"
    obtain x s where xs: "a = (x, s)" by (cases a)
    from a xs have o: "opensOnly g x" by simp
    then have "wfBoard (config x) (board x)"
      using "2.prems" by (simp add: opensOnly_wf)
    from floodVisit_total[OF this, of p d s] obtain z where z: "floodVisit p d (x, s) = Some z" by blast
    obtain x' s' where z': "z = (x', s')" by (cases z)
    from z z' have "opensOnly x x'" by (auto dest: floodVisit_opensOnly)
    with o have "opensOnly g x'" by (rule opensOnly_trans)
    then show "\<exists>b. floodVisit p d a = Some b \<and> (\<lambda>(x, s). opensOnly g x) b"
      using z z' xs by simp
  qed
  then obtain g1 st1 where a: "forEachM (floodVisit p) offsets (g, rest) = Some (g1, st1)" and o: "opensOnly g g1"
    by auto
  have "wfBoard (config g1) (board g1)"
    using o "2.prems" by (simp add: opensOnly_wf)
  from "2.hyps"[OF a this] show ?case using a by simp
qed

text \<open>
  C8.  \<open>floodOpen\<close> returns normally on a board of the configured dimensions, and whenever it
  returns, every cell is either unchanged or differs only by \<open>isOpen\<close> having become true;
  a cell that was flagged, a mine or already open is unchanged, so only closed, unflagged,
  safe cells are opened.  \<open>openCount\<close> grows by exactly the number of cells that became open.
\<close>

theorem floodOpen_opens_only_safe_cells:
  "(wfBoard (config g) (board g) \<longrightarrow> floodOpen g startRow startCol \<noteq> None) \<and>
   (\<forall>g'. floodOpen g startRow startCol = Some g' \<longrightarrow>
      (\<forall>r c x. cellAt (board g) r c = Some x \<longrightarrow>
         (\<exists>y. cellAt (board g') r c = Some y \<and>
              (isFlagged x \<or> isMine x \<or> isOpen x \<longrightarrow> y = x) \<and>
              (y = x \<or> y = x\<lparr>isOpen := True\<rparr>))) \<and>
      openCount g' - openCount g
        = int (countCells isOpen (board g')) - int (countCells isOpen (board g)))"
proof (intro conjI allI impI)
  assume "wfBoard (config g) (board g)"
  from floodLoop_total[OF this, of "[(startRow, startCol)]"]
  show "floodOpen g startRow startCol \<noteq> None"
    unfolding floodOpen_def by (metis option.distinct(1))
next
  fix g' r c x
  assume "floodOpen g startRow startCol = Some g'" "cellAt (board g) r c = Some x"
  then show "\<exists>y. cellAt (board g') r c = Some y \<and>
              (isFlagged x \<or> isMine x \<or> isOpen x \<longrightarrow> y = x) \<and>
              (y = x \<or> y = x\<lparr>isOpen := True\<rparr>)"
    using floodLoop_opensOnly[of g "[(startRow, startCol)]" g']
    unfolding floodOpen_def opensOnly_def by fastforce
next
  fix g'
  assume "floodOpen g startRow startCol = Some g'"
  then show "openCount g' - openCount g
        = int (countCells isOpen (board g')) - int (countCells isOpen (board g))"
    using floodLoop_opensOnly[of g "[(startRow, startCol)]" g']
    unfolding floodOpen_def opensOnly_def by linarith
qed

theorem floodOpen_opens_only_safe_cells_witness:
  "\<exists>g'. floodOpen sampleBoardState 5 5 = Some g' \<and>
        cellAt (board g') 0 0 = cellAt (board sampleBoardState) 0 0 \<and>
        cellAt (board g') 0 1 = cellAt (board sampleBoardState) 0 1 \<and>
        openCount g' - openCount sampleBoardState
          = int (countCells isOpen (board g')) - int (countCells isOpen (board sampleBoardState))"
proof -
  note T = floodOpen_opens_only_safe_cells[of sampleBoardState 5 5]
  from T wf_sampleBoardState obtain g' where g': "floodOpen sampleBoardState 5 5 = Some g'"
    by blast
  from T g' sample_cell_0_0 have "cellAt (board g') 0 0 = cellAt (board sampleBoardState) 0 0"
    by fastforce
  moreover from T g' sample_cell_0_1 have "cellAt (board g') 0 1 = cellAt (board sampleBoardState) 0 1"
    by fastforce
  moreover from T g' have "openCount g' - openCount sampleBoardState
          = int (countCells isOpen (board g')) - int (countCells isOpen (board sampleBoardState))"
    by blast
  ultimately show ?thesis using g' by blast
qed

section \<open>Opening a cell\<close>

lemma revealStep_keeps_open:
  assumes "revealStep p a = Some b" "\<exists>y. cellAt (board a) r c = Some y \<and> isOpen y"
  shows "\<exists>y. cellAt (board b) r c = Some y \<and> isOpen y"
proof -
  obtain r0 c0 where p: "p = (r0, c0)" by (cases p)
  from assms(1) p obtain x where x: "cellAt (board a) r0 c0 = Some x"
    and b: "b = a\<lparr>board := setCell (board a) r0 c0 (revealCell x)\<rparr>"
    by (auto simp: revealStep_def split: option.splits)
  show ?thesis
    using assms(2) x by (auto simp: b cellAt_setCell[OF x] revealCell_def)
qed

lemma revealMines_keeps_open:
  assumes "revealMines g = Some g'" "cellAt (board g) r c = Some x" "isOpen x"
  shows "\<exists>y. cellAt (board g') r c = Some y \<and> isOpen y"
  by (rule forEachM_inv[OF assms(1)[unfolded revealMines_def], where I = "\<lambda>a. \<exists>y. cellAt (board a) r c = Some y \<and> isOpen y"])
     (use assms(2,3) in \<open>auto intro: revealStep_keeps_open\<close>)

lemma openCell_noop:
  assumes "cellAt (board g) row col = Some cell" "isOpen cell \<or> isFlagged cell"
  shows "openCell g row col = Some (False, g)"
  using assms by (simp add: openCell_def)

lemma openCell_leaves_open:
  assumes "openCell g row col = Some (opened, g')"
  shows "\<exists>y. cellAt (board g') row col = Some y \<and> (isOpen y \<or> isFlagged y)"
proof -
  from assms obtain cell where cell: "cellAt (board g) row col = Some cell"
    by (auto simp: openCell_def split: option.splits)
  let ?g1 = "g\<lparr>board := setCell (board g) row col (cell\<lparr>isOpen := True\<rparr>), openCount := openCount g + 1\<rparr>"
  have at1: "cellAt (board ?g1) row col = Some (cell\<lparr>isOpen := True\<rparr>)"
    by (simp add: cellAt_setCell[OF cell])
  consider (noop) "isOpen cell \<or> isFlagged cell"
    | (mine) "\<not> (isOpen cell \<or> isFlagged cell)" "isMine cell"
    | (zero) "\<not> (isOpen cell \<or> isFlagged cell)" "\<not> isMine cell" "adjacent cell = 0"
    | (num) "\<not> (isOpen cell \<or> isFlagged cell)" "\<not> isMine cell" "adjacent cell \<noteq> 0"
    by blast
  then show ?thesis
  proof cases
    case noop
    with assms cell show ?thesis by (auto simp: openCell_def)
  next
    case mine
    with assms cell have e: "endGame False ?g1 = Some g'"
      by (auto simp: openCell_def Let_def split: option.splits)
    then have "revealMines (stopTimer (?g1\<lparr>isGameOver := True, didWin := False\<rparr>)) = Some g'"
      by (simp add: endGame_def Let_def)
    moreover have "cellAt (board (stopTimer (?g1\<lparr>isGameOver := True, didWin := False\<rparr>))) row col = Some (cell\<lparr>isOpen := True\<rparr>)"
      using at1 by (simp add: stopTimer_def)
    ultimately show ?thesis
      using revealMines_keeps_open[of _ g' row col "cell\<lparr>isOpen := True\<rparr>"] by auto
  next
    case zero
    with assms cell have "floodOpen ?g1 row col = Some g'"
      by (auto simp: openCell_def Let_def split: option.splits)
    then have "opensOnly ?g1 g'"
      unfolding floodOpen_def by (rule floodLoop_opensOnly)
    with at1 show ?thesis
      unfolding opensOnly_def by fastforce
  next
    case num
    with assms cell have "g' = ?g1"
      by (auto simp: openCell_def Let_def)
    with at1 show ?thesis by auto
  qed
qed

lemma openCell_total:
  assumes "wfBoard (config g) (board g)" "cellAt (board g) row col \<noteq> None"
  shows "openCell g row col \<noteq> None"
proof -
  from assms(2) obtain cell where cell: "cellAt (board g) row col = Some cell" by auto
  let ?g1 = "g\<lparr>board := setCell (board g) row col (cell\<lparr>isOpen := True\<rparr>), openCount := openCount g + 1\<rparr>"
  have wf1: "wfBoard (config ?g1) (board ?g1)"
    using assms(1) by simp
  have "wfBoard (config (stopTimer (?g1\<lparr>isGameOver := True, didWin := False\<rparr>)))
          (board (stopTimer (?g1\<lparr>isGameOver := True, didWin := False\<rparr>)))"
    using assms(1) by (simp add: stopTimer_def)
  from revealMines_result[OF this] have e: "endGame False ?g1 \<noteq> None"
    by (auto simp: endGame_def Let_def)
  from floodLoop_total[OF wf1, of "[(row, col)]"] have f: "floodOpen ?g1 row col \<noteq> None"
    unfolding floodOpen_def by (metis option.distinct(1))
  show ?thesis
    using e f cell by (auto simp: openCell_def Let_def split: option.splits)
qed

text \<open>
  C7.  \<open>openCell\<close> on a cell that is already open, or flagged, returns \<open>false\<close> and leaves
  every module variable as it was (all cells, \<open>openCount\<close>).  Whatever the first call did
  (flood expansion included), a second call at the same coordinates is such a no-op.
  On a board of the configured dimensions the call returns normally at every existing cell.
\<close>

theorem openCell_idempotent:
  "(\<forall>cell. cellAt (board g) row col = Some cell \<and> (isOpen cell \<or> isFlagged cell)
       \<longrightarrow> openCell g row col = Some (False, g)) \<and>
   (\<forall>opened g'. openCell g row col = Some (opened, g')
       \<longrightarrow> openCell g' row col = Some (False, g')) \<and>
   (wfBoard (config g) (board g) \<and> cellAt (board g) row col \<noteq> None
       \<longrightarrow> openCell g row col \<noteq> None)"
proof (intro conjI allI impI)
  fix cell
  assume "cellAt (board g) row col = Some cell \<and> (isOpen cell \<or> isFlagged cell)"
  then show "openCell g row col = Some (False, g)"
    using openCell_noop by blast
next
  fix opened g'
  assume "openCell g row col = Some (opened, g')"
  from openCell_leaves_open[OF this] obtain y where
    "cellAt (board g') row col = Some y" "isOpen y \<or> isFlagged y" by blast
  then show "openCell g' row col = Some (False, g')"
    by (rule openCell_noop)
next
  assume "wfBoard (config g) (board g) \<and> cellAt (board g) row col \<noteq> None"
  then show "openCell g row col \<noteq> None"
    using openCell_total by blast
qed

theorem openCell_idempotent_witness:
  "openCell sampleBoardState 0 1 = Some (False, sampleBoardState) \<and>
   (\<exists>opened g'. openCell sampleBoardState 5 5 = Some (opened, g') \<and>
                 openCell g' 5 5 = Some (False, g'))"
proof -
  have a: "openCell sampleBoardState 0 1 = Some (False, sampleBoardState)"
    using openCell_idempotent[of sampleBoardState 0 1] sample_cell_0_1 by simp
  have "openCell sampleBoardState 5 5 \<noteq> None"
    using openCell_idempotent[of sampleBoardState 5 5] wf_sampleBoardState sample_cell_5_5 by simp
  then obtain opened g' where o: "openCell sampleBoardState 5 5 = Some (opened, g')"
    by auto
  then have "openCell g' 5 5 = Some (False, g')"
    using openCell_idempotent[of sampleBoardState 5 5] by blast
  with a o show ?thesis by blast
qed

section \<open>Sessions: what the event handlers preserve\<close>

lemma cellsRelated_refl: "(\<And>x. Q x x) \<Longrightarrow> cellsRelated Q b b"
  by (simp add: cellsRelated_def)

lemma cellsRelated_trans:
  assumes "cellsRelated Q a b" "cellsRelated Q b c" "\<And>x y z. Q x y \<Longrightarrow> Q y z \<Longrightarrow> Q x z"
  shows "cellsRelated Q a c"
  using assms unfolding cellsRelated_def by (metis (no_types, lifting))

lemma cellsRelated_mono:
  assumes "cellsRelated Q a b" "\<And>x y. Q x y \<Longrightarrow> Q' x y"
  shows "cellsRelated Q' a b"
  using assms unfolding cellsRelated_def by blast

lemma cellsRelated_setCell:
  assumes "cellAt b r c = Some x" "Q x y" "\<And>z. Q z z"
  shows "cellsRelated Q b (setCell b r c y)"
  using assms unfolding cellsRelated_def by (auto simp: cellAt_setCell[OF assms(1)])

lemma cellsRelated_count:
  assumes "cellsRelated Q b b'" "\<And>x y. Q x y \<Longrightarrow> P y = P x"
  shows "countCells P b' = countCells P b"
proof (rule countCells_cong)
  show "map length b' = map length b" using assms(1) by (simp add: cellsRelated_def)
next
  fix r c x assume "cellAt b r c = Some x"
  then show "\<exists>y. cellAt b' r c = Some y \<and> P y = P x"
    using assms unfolding cellsRelated_def by blast
qed

lemma cellsRelated_wf:
  assumes "cellsRelated Q b b'"
  shows "wfBoard cfg b' = wfBoard cfg b"
  using assms by (simp add: cellsRelated_def wfBoard_def)

lemma keepsFlags_refl [simp]: "keepsFlags x x"
  by (simp add: keepsFlags_def)

lemma keepsFlags_trans: "keepsFlags x y \<Longrightarrow> keepsFlags y z \<Longrightarrow> keepsFlags x z"
  by (simp add: keepsFlags_def)

lemma keepsFlagsAndMines_refl [simp]: "keepsFlagsAndMines x x"
  by (simp add: keepsFlagsAndMines_def)

lemma keepsFlagsAndMines_trans:
  "keepsFlagsAndMines x y \<Longrightarrow> keepsFlagsAndMines y z \<Longrightarrow> keepsFlagsAndMines x z"
  by (simp add: keepsFlagsAndMines_def)

lemma keepsFlagsAndMines_keepsFlags: "keepsFlagsAndMines x y \<Longrightarrow> keepsFlags x y"
  by (simp add: keepsFlagsAndMines_def keepsFlags_def)

text \<open>Loops that only assign to fields of cells: the result is the start state with another board.\<close>

lemma boardLoop_frame:
  assumes run: "forEachM f xs g = Some g'"
    and step: "\<And>x a b. f x a = Some b \<Longrightarrow>
                  \<exists>r c cell y. cellAt (board a) r c = Some cell \<and> Q cell y \<and>
                               (b = a \<or> b = a\<lparr>board := setCell (board a) r c y\<rparr>)"
    and refl: "\<And>z. Q z z" and trans: "\<And>x y z. Q x y \<Longrightarrow> Q y z \<Longrightarrow> Q x z"
  shows "\<exists>b'. g' = g\<lparr>board := b'\<rparr> \<and> cellsRelated Q (board g) b'"
proof (rule forEachM_inv[OF run, where I = "\<lambda>a. \<exists>b. a = g\<lparr>board := b\<rparr> \<and> cellsRelated Q (board g) b"])
  show "\<exists>b. g = g\<lparr>board := b\<rparr> \<and> cellsRelated Q (board g) b"
    by (rule exI[of _ "board g"]) (simp add: cellsRelated_refl refl)
next
  fix x a b
  assume I: "\<exists>ba. a = g\<lparr>board := ba\<rparr> \<and> cellsRelated Q (board g) ba" and s: "f x a = Some b"
  from I obtain ba where ba: "a = g\<lparr>board := ba\<rparr>" "cellsRelated Q (board g) ba" by blast
  from step[OF s] obtain r c cell y where
    c: "cellAt (board a) r c = Some cell" "Q cell y" "b = a \<or> b = a\<lparr>board := setCell (board a) r c y\<rparr>"
    by blast
  from c(3) show "\<exists>bb. b = g\<lparr>board := bb\<rparr> \<and> cellsRelated Q (board g) bb"
  proof
    assume "b = a" then show ?thesis using I by simp
  next
    assume b: "b = a\<lparr>board := setCell (board a) r c y\<rparr>"
    have "cellsRelated Q ba (setCell ba r c y)"
      using c(1,2) ba(1) refl by (intro cellsRelated_setCell) auto
    with ba(2) have "cellsRelated Q (board g) (setCell ba r c y)"
      using trans by (rule cellsRelated_trans)
    moreover have "b = g\<lparr>board := setCell ba r c y\<rparr>" using b ba(1) by simp
    ultimately show ?thesis by blast
  qed
qed

lemma revealMines_frame:
  assumes "revealMines g = Some g'"
  shows "\<exists>b'. g' = g\<lparr>board := b'\<rparr> \<and> cellsRelated keepsFlagsAndMines (board g) b'"
proof (rule boardLoop_frame[OF assms[unfolded revealMines_def]])
  fix x a b assume "revealStep x a = Some b"
  then obtain r c cell where "cellAt (board a) r c = Some cell"
      "b = a\<lparr>board := setCell (board a) r c (revealCell cell)\<rparr>"
    by (cases x) (auto simp: revealStep_def split: option.splits)
  moreover have "keepsFlagsAndMines cell (revealCell cell)"
    by (simp add: keepsFlagsAndMines_def revealCell_def)
  ultimately show "\<exists>r c cell y. cellAt (board a) r c = Some cell \<and> keepsFlagsAndMines cell y \<and>
                               (b = a \<or> b = a\<lparr>board := setCell (board a) r c y\<rparr>)"
    by blast
qed (auto intro: keepsFlagsAndMines_trans)

lemma placeMines_frame:
  assumes "placeMines env g er ec = Some g'"
  shows "\<exists>b'. g' = g\<lparr>board := b', minesPlaced := True\<rparr> \<and> cellsRelated keepsFlags (board g) b'"
proof -
  let ?cfg = "config g"
  let ?pos = "shuffle (shuffleRandom env) (candidatePositions ?cfg (exclusionsFor ?cfg er ec))"
  from assms obtain g1 g2 where
    m: "forEachM (placeMineAt ?cfg ?pos) [0..mines ?cfg - 1] g = Some g1"
    and a: "forEachM adjacentStep (gridCoords (rows ?cfg) (cols ?cfg)) g1 = Some g2"
    and g': "g' = g2\<lparr>minesPlaced := True\<rparr>"
    by (auto simp: placeMines_def Let_def split: option.splits)
  have "\<exists>b1. g1 = g\<lparr>board := b1\<rparr> \<and> cellsRelated keepsFlags (board g) b1"
  proof (rule boardLoop_frame[OF m])
    fix x a b assume "placeMineAt ?cfg ?pos x a = Some b"
    then obtain r c cell where "cellAt (board a) r c = Some cell"
      "b = a\<lparr>board := setCell (board a) r c (cell\<lparr>isMine := True\<rparr>)\<rparr>"
      by (auto simp: placeMineAt_def Let_def split: if_splits option.splits)
    moreover have "keepsFlags cell (cell\<lparr>isMine := True\<rparr>)" by (simp add: keepsFlags_def)
    ultimately show "\<exists>r c cell y. cellAt (board a) r c = Some cell \<and> keepsFlags cell y \<and>
                               (b = a \<or> b = a\<lparr>board := setCell (board a) r c y\<rparr>)"
      by blast
  qed (auto intro: keepsFlags_trans)
  then obtain b1 where b1: "g1 = g\<lparr>board := b1\<rparr>" "cellsRelated keepsFlags (board g) b1" by blast
  have "\<exists>b2. g2 = g1\<lparr>board := b2\<rparr> \<and> cellsRelated keepsFlags (board g1) b2"
  proof (rule boardLoop_frame[OF a])
    fix x a b assume s: "adjacentStep x a = Some b"
    obtain r c where x: "x = (r, c)" by (cases x)
    from s obtain cell where cell: "cellAt (board a) r c = Some cell"
      by (auto simp: adjacentStep_def x split: option.splits)
    from s cell have "b = a \<or> (\<exists>n. b = a\<lparr>board := setCell (board a) r c (cell\<lparr>adjacent := n\<rparr>)\<rparr>)"
      by (auto simp: adjacentStep_def x split: option.splits if_splits)
    moreover have "keepsFlags cell (cell\<lparr>adjacent := n\<rparr>)" for n by (simp add: keepsFlags_def)
    ultimately show "\<exists>r c cell y. cellAt (board a) r c = Some cell \<and> keepsFlags cell y \<and>
                               (b = a \<or> b = a\<lparr>board := setCell (board a) r c y\<rparr>)"
      using cell keepsFlags_refl by blast
  qed (auto intro: keepsFlags_trans)
  then obtain b2 where b2: "g2 = g1\<lparr>board := b2\<rparr>" "cellsRelated keepsFlags (board g1) b2" by blast
  have "cellsRelated keepsFlags (board g) b2"
    using b1 b2 by (auto intro: cellsRelated_trans keepsFlags_trans)
  moreover have "g' = g\<lparr>board := b2, minesPlaced := True\<rparr>"
    using g' b1(1) b2(1) by simp
  ultimately show ?thesis by blast
qed

lemma opensOnly_cellsRelated:
  assumes "opensOnly g g'"
  shows "cellsRelated keepsFlagsAndMines (board g) (board g')"
  using assms unfolding opensOnly_def cellsRelated_def keepsFlagsAndMines_def by fastforce

lemma countCells_split:
  "countCells P b = countCells (\<lambda>x. P x \<and> Q x) b + countCells (\<lambda>x. P x \<and> \<not> Q x) b"
proof -
  have "length (filter P xs) = length (filter (\<lambda>x. P x \<and> Q x) xs) + length (filter (\<lambda>x. P x \<and> \<not> Q x) xs)" for xs
    by (induction xs) auto
  then show ?thesis by (simp add: countCells_def)
qed

lemma countCells_all:
  assumes "wfBoard cfg b"
  shows "countCells (\<lambda>x. True) b = nat (rows cfg) * nat (cols cfg)"
proof -
  have "length (concat b) = sum_list (map length b)" by (simp add: length_concat)
  also have "\<dots> = sum_list (replicate (nat (rows cfg)) (nat (cols cfg)))"
    using assms by (simp add: wfBoard_def)
  also have "\<dots> = nat (rows cfg) * nat (cols cfg)" by (simp add: sum_list_replicate)
  finally show ?thesis by (simp add: countCells_def)
qed

lemma countCells_pos:
  assumes "cellAt b r c = Some x" "P x"
  shows "0 < countCells P b"
proof (rule ccontr)
  assume "\<not> 0 < countCells P b"
  then have "filter P (concat b) = []" by (simp add: countCells_def)
  then have n: "\<forall>y \<in> set (concat b). \<not> P y" by (simp add: filter_empty_conv)
  from assms(1) have "nat r < length b" "nat c < length (b ! nat r)" "x = b ! nat r ! nat c"
    by (auto simp: cellAt_Some_iff)
  then have "x \<in> set (concat b)"
    by (metis nth_mem set_concat UN_I)
  with n assms(2) show False by blast
qed

lemma countCells_zero_cells:
  assumes "countCells P b = 0" "cellAt b r c = Some x"
  shows "\<not> P x"
  using countCells_pos[OF assms(2), of P] assms(1) by auto

lemma countCells_mono:
  assumes "\<And>x. P x \<Longrightarrow> Q x"
  shows "countCells P b \<le> countCells Q b"
proof -
  have "countCells Q b = countCells (\<lambda>x. Q x \<and> P x) b + countCells (\<lambda>x. Q x \<and> \<not> P x) b"
    by (rule countCells_split)
  moreover have "(\<lambda>x. Q x \<and> P x) = P" using assms by auto
  ultimately show ?thesis by simp
qed

text \<open>Counting safe and open cells on a board of the configured size.\<close>

lemma safe_cells_arith:
  assumes wf: "wfBoard cfg b" and pos: "0 < rows cfg" "0 < cols cfg"
    and om: "openMines b = 0"
  shows "int (safeCellsLeft b) = rows cfg * cols cfg - int (countCells isMine b) - int (countCells isOpen b)"
proof -
  have t: "countCells (\<lambda>x. True) b = countCells isMine b + countCells (\<lambda>x. \<not> isMine x) b"
    using countCells_split[of "\<lambda>x. True" b isMine] by simp
  have s: "countCells (\<lambda>x. \<not> isMine x) b = countCells (\<lambda>x. \<not> isMine x \<and> isOpen x) b + safeCellsLeft b"
    using countCells_split[of "\<lambda>x. \<not> isMine x" b isOpen] by (simp add: safeCellsLeft_def)
  have o: "countCells isOpen b = countCells (\<lambda>x. isOpen x \<and> isMine x) b + countCells (\<lambda>x. isOpen x \<and> \<not> isMine x) b"
    by (rule countCells_split)
  have e1: "countCells (\<lambda>x. isOpen x \<and> isMine x) b = openMines b"
    by (simp add: openMines_def conj_commute)
  have e2: "countCells (\<lambda>x. isOpen x \<and> \<not> isMine x) b = countCells (\<lambda>x. \<not> isMine x \<and> isOpen x) b"
    by (simp add: conj_commute)
  have "countCells isOpen b = countCells (\<lambda>x. \<not> isMine x \<and> isOpen x) b"
    using o om unfolding e1 e2 by simp
  with t s have "nat (rows cfg) * nat (cols cfg) = countCells isMine b + countCells isOpen b + safeCellsLeft b"
    using countCells_all[OF wf] by simp
  then have "int (nat (rows cfg) * nat (cols cfg)) = int (countCells isMine b) + int (countCells isOpen b) + int (safeCellsLeft b)"
    by simp
  moreover have "int (nat (rows cfg) * nat (cols cfg)) = rows cfg * cols cfg"
    using pos by simp
  ultimately show ?thesis by linarith
qed

lemma sessionInv_timer [simp]:
  "sessionInv (startTimer env g) = sessionInv g"
  "sessionInv (stopTimer g) = sessionInv g"
  "sessionInv (updateTimer env g) = sessionInv g"
  "sessionInv (resetTimerOnly env g) = sessionInv g"
  "sessionInv (recordWin t g) = sessionInv g"
  by (simp_all add: sessionInv_def startTimer_def stopTimer_def updateTimer_def resetTimerOnly_def
        recordWin_def Let_def split: option.splits)

lemma sessionInv_other_fields [simp]:
  "sessionInv (g\<lparr>settings := s\<rparr>) = sessionInv g"
  "sessionInv (g\<lparr>leaderboard := l\<rparr>) = sessionInv g"
  "sessionInv (g\<lparr>hintsUsed := h\<rparr>) = sessionInv g"
  by (simp_all add: sessionInv_def)

lemma countCells_createEmptyBoard:
  assumes "\<not> P \<lparr>isMine = False, isOpen = False, isFlagged = False, adjacent = 0, isWrongFlag = False\<rparr>"
  shows "countCells P (createEmptyBoard rs cs) = 0"
  by (rule countCells_zero) (use assms in \<open>auto simp: cellAt_createEmptyBoard split: if_splits\<close>)

lemma sessionInv_fresh:
  assumes "validConfig cfg"
  shows "sessionInv (GameState.extend (createInitialState cfg) m)"
  using assms
  by (simp add: sessionInv_def createInitialState_def GameState.defs countCells_createEmptyBoard
        openMines_def validConfig_def)

lemma sessionInv_startNewGame:
  assumes "validConfig cfg"
  shows "sessionInv (startNewGame env cfg g)"
  unfolding startNewGame_def using sessionInv_fresh[OF assms] by simp

lemma countCells_setCell_same:
  assumes "cellAt b r c = Some x" "P y = P x"
  shows "countCells P (setCell b r c y) = countCells P b"
  using countCells_setCell[OF assms(1), of P y] assms(2) by simp

lemma sessionInv_toggleFlag:
  assumes inv: "sessionInv g" and t: "toggleFlag g row col = Some g'"
  shows "sessionInv g'"
proof (cases "g' = g")
  case True
  then show ?thesis using inv by simp
next
  case False
  with t obtain x where x: "cellAt (board g) row col = Some x" "\<not> isOpen x" "\<not> isGameOver g"
    and g': "g' = g\<lparr>board := setCell (board g) row col (x\<lparr>isFlagged := \<not> isFlagged x\<rparr>),
                   flags := flags g + (if \<not> isFlagged x then 1 else - 1)\<rparr>"
    by (auto simp: toggleFlag_def Let_def split: if_splits option.splits)
  let ?y = "x\<lparr>isFlagged := \<not> isFlagged x\<rparr>"
  let ?b = "setCell (board g) row col ?y"
  have c1: "countCells isMine ?b = countCells isMine (board g)"
    by (rule countCells_setCell_same[OF x(1)]) simp
  have c2: "countCells isOpen ?b = countCells isOpen (board g)"
    by (rule countCells_setCell_same[OF x(1)]) simp
  have c3: "openMines ?b = openMines (board g)"
    unfolding openMines_def by (rule countCells_setCell_same[OF x(1)]) simp
  have c4: "safeCellsLeft ?b = safeCellsLeft (board g)"
    unfolding safeCellsLeft_def by (rule countCells_setCell_same[OF x(1)]) simp
  have c5: "int (countCells isFlagged ?b) = int (countCells isFlagged (board g)) + (if \<not> isFlagged x then 1 else - 1)"
    using countCells_setCell[OF x(1), of isFlagged ?y] by (auto split: if_splits)
  show ?thesis
    using inv x(3) unfolding sessionInv_def g' by (simp add: c1 c2 c3 c4 c5)
qed

lemma opensOnly_counts:
  assumes "opensOnly g g'"
  shows "countCells isFlagged (board g') = countCells isFlagged (board g)"
    and "countCells isMine (board g') = countCells isMine (board g)"
    and "openMines (board g') = openMines (board g)"
proof -
  have len: "map length (board g') = map length (board g)"
    using assms by (simp add: opensOnly_def)
  have cells: "\<exists>y. cellAt (board g') r c = Some y \<and> isFlagged y = isFlagged x \<and> isMine y = isMine x \<and>
                   (isMine y \<and> isOpen y) = (isMine x \<and> isOpen x)"
    if "cellAt (board g) r c = Some x" for r c x
    using assms that unfolding opensOnly_def by fastforce
  show "countCells isFlagged (board g') = countCells isFlagged (board g)"
    by (rule countCells_cong[OF len]) (use cells in blast)
  show "countCells isMine (board g') = countCells isMine (board g)"
    by (rule countCells_cong[OF len]) (use cells in blast)
  show "openMines (board g') = openMines (board g)"
    unfolding openMines_def by (rule countCells_cong[OF len]) (use cells in blast)
qed

lemma playingInv_opensOnly:
  assumes "playingInv g" "opensOnly g g'"
  shows "playingInv g'"
proof -
  from assms(2) obtain b' n where g': "g' = g\<lparr>board := b', openCount := n\<rparr>"
    unfolding opensOnly_def by blast
  have b: "board g' = b'" and o: "openCount g' = n" using g' by simp_all
  have cnt: "openCount g' - int (countCells isOpen (board g')) = openCount g - int (countCells isOpen (board g))"
    using assms(2) by (simp add: opensOnly_def)
  have wf: "wfBoard (config g') (board g') = wfBoard (config g) (board g)"
    by (rule opensOnly_wf[OF assms(2)])
  show ?thesis
    using assms(1) opensOnly_counts[OF assms(2)] cnt wf
    unfolding playingInv_def by (simp add: g')
qed

lemma playingInv_checkWin:
  assumes p: "playingInv g" and c: "checkWin g = Some (won, g')"
  shows "sessionInv g'"
proof -
  let ?safe = "rows (config g) * cols (config g) - mines (config g)"
  from p have wf: "wfBoard (config g) (board g)" and v: "validConfig (config g)"
    and om: "openMines (board g) = 0" and oc: "openCount g = int (countCells isOpen (board g))"
    and mc: "int (countCells isMine (board g)) = mines (config g)"
    by (simp_all add: playingInv_def)
  from v have pos: "0 < rows (config g)" "0 < cols (config g)" by (simp_all add: validConfig_def)
  have left: "int (safeCellsLeft (board g)) = ?safe - openCount g"
    using safe_cells_arith[OF wf pos om] mc oc by simp
  show ?thesis
  proof (cases "openCount g \<ge> ?safe")
    case True
    then have g': "g' = recordWin (elapsed (stopTimer (g\<lparr>isGameOver := True, didWin := True\<rparr>)))
                         (stopTimer (g\<lparr>isGameOver := True, didWin := True\<rparr>))"
      using c by (simp add: checkWin_def endGame_def Let_def)
    have z: "safeCellsLeft (board g) = 0" using left True by linarith
    have "sessionInv (g\<lparr>isGameOver := True, didWin := True\<rparr>)"
      using p z unfolding sessionInv_def playingInv_def by simp
    then show ?thesis unfolding g' by simp
  next
    case False
    then have "g' = g" using c by (simp add: checkWin_def Let_def)
    then show ?thesis
      using p False unfolding sessionInv_def playingInv_def by simp
  qed
qed

lemma wf_inBounds:
  assumes "wfBoard cfg b" "cellAt b r c = Some x"
  shows "inBounds cfg r c"
  using wfBoard_cellAt[OF assms(1), of r c] assms(2) by (simp add: inBounds_def)

lemma placement_playingInv:
  assumes inv: "sessionInv g" and np: "\<not> minesPlaced g"
    and x: "cellAt (board g) row col = Some x"
    and pm: "placeMines env g row col = Some p"
  shows "playingInv p \<and> (\<exists>y. cellAt (board p) row col = Some y \<and> isOpen y = isOpen x \<and> isFlagged y = isFlagged x)"
proof -
  from inv have wf: "wfBoard (config g) (board g)" and v: "validConfig (config g)"
    and fl: "flags g = int (countCells isFlagged (board g))"
    by (simp_all add: sessionInv_def)
  from inv np have z: "countCells isMine (board g) = 0" "countCells isOpen (board g) = 0"
      "openCount g = 0" "\<not> isGameOver g"
    by (simp_all add: sessionInv_def)
  have nom: "\<forall>r c x. cellAt (board g) r c = Some x \<longrightarrow> \<not> isMine x"
    using countCells_zero_cells[OF z(1)] by blast
  from v have m: "mines (config g) < rows (config g) * cols (config g)" "0 < mines (config g)"
    by (simp_all add: validConfig_def)
  from placeMines_result[OF wf wf_inBounds[OF wf x] m(1) nom, where env = env] obtain b' where
    raw: "placeMines env g row col = Some (g\<lparr>board := b', minesPlaced := True\<rparr>)"
      "map length b' = map length (board g)"
      "\<forall>r c x. cellAt (board g) r c = Some x \<longrightarrow>
          (\<exists>y. cellAt b' r c = Some y \<and> isOpen y = isOpen x \<and> isFlagged y = isFlagged x \<and>
               isWrongFlag y = isWrongFlag x \<and>
               (cellIndex (config g) (r, c) \<in> exclusionsFor (config g) row col \<longrightarrow> \<not> isMine y))"
      "int (countCells isMine b') = max 0 (mines (config g))"
    by blast
  have p: "p = g\<lparr>board := b', minesPlaced := True\<rparr>"
    using raw(1) pm by simp
  note len = raw(2) and mc = raw(4)
  have cells: "\<exists>y. cellAt b' r c = Some y \<and> isOpen y = isOpen x \<and> isFlagged y = isFlagged x"
    if "cellAt (board g) r c = Some x" for r c x
    using raw(3) that by blast
  have c1: "countCells isFlagged b' = countCells isFlagged (board g)"
    by (rule countCells_cong[OF len]) (use cells in blast)
  have c2: "countCells isOpen b' = countCells isOpen (board g)"
    by (rule countCells_cong[OF len]) (use cells in blast)
  have "openMines b' \<le> countCells isOpen b'"
    unfolding openMines_def by (rule countCells_mono) simp
  then have c3: "openMines b' = 0" using c2 z(2) by simp
  have wf': "wfBoard (config g) b'" using wf len by (simp add: wfBoard_def)
  have "playingInv p"
    unfolding playingInv_def p using wf' v fl z m mc c1 c2 c3 by simp
  moreover have "\<exists>y. cellAt (board p) row col = Some y \<and> isOpen y = isOpen x \<and> isFlagged y = isFlagged x"
    using cells[OF x] by (simp add: p)
  ultimately show ?thesis by blast
qed

lemma startTimer_fields [simp]:
  "config (startTimer env g) = config g"
  "board (startTimer env g) = board g"
  "flags (startTimer env g) = flags g"
  "openCount (startTimer env g) = openCount g"
  "minesPlaced (startTimer env g) = minesPlaced g"
  "isGameOver (startTimer env g) = isGameOver g"
  "didWin (startTimer env g) = didWin g"
  "hintsUsed (startTimer env g) = hintsUsed g"
  "settings (startTimer env g) = settings g"
  "leaderboard (startTimer env g) = leaderboard g"
  by (cases "timerId g"; simp add: startTimer_def updateTimer_def)+

lemma stopTimer_fields [simp]:
  "config (stopTimer g) = config g"
  "board (stopTimer g) = board g"
  "flags (stopTimer g) = flags g"
  "openCount (stopTimer g) = openCount g"
  "minesPlaced (stopTimer g) = minesPlaced g"
  "isGameOver (stopTimer g) = isGameOver g"
  "didWin (stopTimer g) = didWin g"
  "hintsUsed (stopTimer g) = hintsUsed g"
  "settings (stopTimer g) = settings g"
  "leaderboard (stopTimer g) = leaderboard g"
  "elapsed (stopTimer g) = elapsed g"
  by (simp_all add: stopTimer_def)

lemma playingInv_startTimer [simp]: "playingInv (startTimer env g) = playingInv g"
  by (simp add: playingInv_def)

lemma openCell_safe_cases:
  assumes x: "cellAt (board g) row col = Some x" "\<not> isOpen x" "\<not> isFlagged x" "\<not> isMine x"
    and o: "openCell g row col = Some (opened, g')"
  shows "(adjacent x = 0 \<and> floodOpen (g\<lparr>board := setCell (board g) row col (x\<lparr>isOpen := True\<rparr>), openCount := openCount g + 1\<rparr>) row col = Some g')
       \<or> (adjacent x \<noteq> 0 \<and> g' = g\<lparr>board := setCell (board g) row col (x\<lparr>isOpen := True\<rparr>), openCount := openCount g + 1\<rparr>)"
proof (cases "adjacent x = 0")
  case True
  with o x show ?thesis
    by (simp add: openCell_def Let_def split: option.splits)
next
  case False
  with o x show ?thesis
    by (simp add: openCell_def Let_def)
qed

lemma openCell_mine_case:
  assumes x: "cellAt (board g) row col = Some x" "\<not> isOpen x" "\<not> isFlagged x" "isMine x"
    and o: "openCell g row col = Some (opened, g')"
  shows "revealMines (stopTimer (g\<lparr>board := setCell (board g) row col (x\<lparr>isOpen := True\<rparr>),
            openCount := openCount g + 1, isGameOver := True, didWin := False\<rparr>)) = Some g'"
  using o x by (simp add: openCell_def endGame_def Let_def split: option.splits)

lemma openCell_inv:
  assumes p: "playingInv g"
    and x: "cellAt (board g) row col = Some x" "\<not> isOpen x" "\<not> isFlagged x"
    and o: "openCell g row col = Some (opened, g')"
  shows "(isGameOver g' \<and> sessionInv g') \<or> (\<not> isGameOver g' \<and> playingInv g')"
proof -
  let ?g1 = "g\<lparr>board := setCell (board g) row col (x\<lparr>isOpen := True\<rparr>), openCount := openCount g + 1\<rparr>"
  show ?thesis
  proof (cases "isMine x")
    case False
    have o1: "opensOnly g ?g1"
      by (rule opensOnly_open[OF x(1) x(2) x(3) False])
    from openCell_safe_cases[OF x False o] have "opensOnly ?g1 g'"
    proof
      assume "adjacent x = 0 \<and> floodOpen ?g1 row col = Some g'"
      then have "floodLoop (?g1, [(row, col)]) = Some g'" by (simp add: floodOpen_def)
      then show ?thesis by (rule floodLoop_opensOnly)
    next
      assume "adjacent x \<noteq> 0 \<and> g' = ?g1"
      then show ?thesis by (simp add: opensOnly_refl)
    qed
    with o1 have "opensOnly g g'" by (rule opensOnly_trans)
    from playingInv_opensOnly[OF p this] show ?thesis
      by (simp add: playingInv_def)
  next
    case True
    let ?e = "stopTimer (g\<lparr>board := setCell (board g) row col (x\<lparr>isOpen := True\<rparr>),
            openCount := openCount g + 1, isGameOver := True, didWin := False\<rparr>)"
    from openCell_mine_case[OF x True o] have "revealMines ?e = Some g'" .
    from revealMines_frame[OF this] obtain b' where
      g': "g' = ?e\<lparr>board := b'\<rparr>" and rel: "cellsRelated keepsFlagsAndMines (board ?e) b'"
      by blast
    have be: "board ?e = setCell (board g) row col (x\<lparr>isOpen := True\<rparr>)"
      by simp
    have c1: "countCells isFlagged b' = countCells isFlagged (board g)"
    proof -
      have "countCells isFlagged b' = countCells isFlagged (board ?e)"
        by (rule cellsRelated_count[OF rel]) (simp add: keepsFlagsAndMines_def)
      also have "\<dots> = countCells isFlagged (board g)"
        unfolding be by (rule countCells_setCell_same[OF x(1)]) simp
      finally show ?thesis .
    qed
    have c2: "countCells isMine b' = countCells isMine (board g)"
    proof -
      have "countCells isMine b' = countCells isMine (board ?e)"
        by (rule cellsRelated_count[OF rel]) (simp add: keepsFlagsAndMines_def)
      also have "\<dots> = countCells isMine (board g)"
        unfolding be by (rule countCells_setCell_same[OF x(1)]) simp
      finally show ?thesis .
    qed
    have "cellAt (board ?e) row col = Some (x\<lparr>isOpen := True\<rparr>)"
      unfolding be by (simp add: cellAt_setCell[OF x(1)])
    with rel obtain y where y: "cellAt b' row col = Some y" "keepsFlagsAndMines (x\<lparr>isOpen := True\<rparr>) y"
      unfolding cellsRelated_def by blast
    then have "isMine y \<and> isOpen y" using True by (simp add: keepsFlagsAndMines_def)
    then have c3: "0 < openMines b'"
      unfolding openMines_def by (rule countCells_pos[OF y(1)])
    have wf': "wfBoard (config g) b'"
      using p cellsRelated_wf[OF rel, of "config g"] by (simp add: playingInv_def)
    have f1: "config g' = config g" by (simp add: g')
    have f2: "flags g' = flags g" by (simp add: g')
    have f3: "minesPlaced g' = minesPlaced g" by (simp add: g')
    have f4: "isGameOver g'" by (simp add: g')
    have f5: "\<not> didWin g'" by (simp add: g')
    have f6: "board g' = b'" by (simp add: g')
    have "sessionInv g'"
      using p wf' c1 c2 c3 f4 f5 unfolding sessionInv_def playingInv_def f1 f2 f3 f6 by simp
    then show ?thesis using f4 by simp
  qed
qed

lemma handleCellClick_cases:
  assumes c: "handleCellClick env g row col = Some g'"
  shows "g' = g \<or>
     (\<exists>x g1 opened g2. \<not> isGameOver g \<and> cellAt (board g) row col = Some x \<and> \<not> isOpen x \<and> \<not> isFlagged x \<and>
        (if minesPlaced g then g1 = g
         else \<exists>p. placeMines env g row col = Some p \<and> g1 = startTimer env p) \<and>
        openCell g1 row col = Some (opened, g2) \<and>
        (if isGameOver g2 then g' = g2 else \<exists>won. checkWin g2 = Some (won, g')))"
proof (cases "isGameOver g")
  case True
  with c show ?thesis by (simp add: handleCellClick_def)
next
  case ng: False
  from c ng obtain x where x: "cellAt (board g) row col = Some x"
    by (cases "cellAt (board g) row col") (simp_all add: handleCellClick_def)
  show ?thesis
  proof (cases "isOpen x \<or> isFlagged x")
    case True
    with c ng x show ?thesis by (simp add: handleCellClick_def)
  next
    case closed: False
    define start where "start = (if \<not> minesPlaced g
                          then map_option (startTimer env) (placeMines env g row col)
                          else Some g)"
    have c': "(case start of None \<Rightarrow> None
               | Some g1 \<Rightarrow> (case openCell g1 row col of None \<Rightarrow> None
                    | Some (opened, g2) \<Rightarrow> if isGameOver g2 then Some g2 else map_option snd (checkWin g2)))
              = Some g'"
      using c ng x closed unfolding handleCellClick_def start_def by simp
    then obtain g1 where s: "start = Some g1" by (cases start) simp_all
    with c' obtain og where og: "openCell g1 row col = Some og" by (cases "openCell g1 row col") simp_all
    obtain opened g2 where og2: "og = (opened, g2)" by (cases og)
    have r: "(if isGameOver g2 then Some g2 else map_option snd (checkWin g2)) = Some g'"
      using c' s og og2 by simp
    have st: "if minesPlaced g then g1 = g
         else \<exists>p. placeMines env g row col = Some p \<and> g1 = startTimer env p"
      using s unfolding start_def by (cases "minesPlaced g") auto
    have fin: "if isGameOver g2 then g' = g2 else \<exists>won. checkWin g2 = Some (won, g')"
    proof (cases "isGameOver g2")
      case True
      with r show ?thesis by simp
    next
      case False
      with r obtain wg where "checkWin g2 = Some wg" "snd wg = g'" by auto
      then have "checkWin g2 = Some (fst wg, g')" by (cases wg) simp
      with False show ?thesis by auto
    qed
    show ?thesis
      using ng x closed st og[unfolded og2] fin by blast
  qed
qed

lemma sessionInv_click:
  assumes inv: "sessionInv g" and c: "handleCellClick env g row col = Some g'"
  shows "sessionInv g'"
  using handleCellClick_cases[OF c]
proof
  assume "g' = g"
  then show ?thesis using inv by simp
next
  assume "\<exists>x g1 opened g2. \<not> isGameOver g \<and> cellAt (board g) row col = Some x \<and> \<not> isOpen x \<and> \<not> isFlagged x \<and>
        (if minesPlaced g then g1 = g
         else \<exists>p. placeMines env g row col = Some p \<and> g1 = startTimer env p) \<and>
        openCell g1 row col = Some (opened, g2) \<and>
        (if isGameOver g2 then g' = g2 else \<exists>won. checkWin g2 = Some (won, g'))"
  then obtain x g1 opened g2 where ng: "\<not> isGameOver g"
    and x: "cellAt (board g) row col = Some x" "\<not> isOpen x" "\<not> isFlagged x"
    and s: "if minesPlaced g then g1 = g
         else \<exists>p. placeMines env g row col = Some p \<and> g1 = startTimer env p"
    and o: "openCell g1 row col = Some (opened, g2)"
    and r: "if isGameOver g2 then g' = g2 else \<exists>won. checkWin g2 = Some (won, g')"
    by blast
  have p1: "playingInv g1 \<and> (\<exists>y. cellAt (board g1) row col = Some y \<and> isOpen y = isOpen x \<and> isFlagged y = isFlagged x)"
  proof (cases "minesPlaced g")
    case True
    then have "g1 = g" using s by simp
    moreover have "playingInv g" using inv True ng by (simp add: sessionInv_def playingInv_def)
    ultimately show ?thesis using x by simp
  next
    case False
    with s obtain p where p: "placeMines env g row col = Some p" "g1 = startTimer env p"
      by auto
    from placement_playingInv[OF inv False x(1) p(1)] show ?thesis
      by (simp add: p(2))
  qed
  then obtain y where y: "cellAt (board g1) row col = Some y" "\<not> isOpen y" "\<not> isFlagged y"
    using x by auto
  from openCell_inv[OF conjunct1[OF p1] y o] show ?thesis
  proof
    assume "isGameOver g2 \<and> sessionInv g2"
    then show ?thesis using r by simp
  next
    assume a: "\<not> isGameOver g2 \<and> playingInv g2"
    with r obtain won where "checkWin g2 = Some (won, g')" by auto
    from playingInv_checkWin[OF conjunct2[OF a] this] show ?thesis .
  qed
qed

lemma handleHint_cases:
  assumes h: "handleHint env g = Some g'"
  shows "g' = g \<or> (\<not> isGameOver g \<and> minesPlaced g \<and> g' = g\<lparr>hintsUsed := hintsUsed g + 1\<rparr>)
       \<or> (\<not> isGameOver g \<and> \<not> minesPlaced g \<and>
           (\<exists>g1 r c. handleCellClick env g r c = Some g1 \<and> g' = g1\<lparr>hintsUsed := hintsUsed g1 + 1\<rparr>))"
proof (cases "isGameOver g")
  case True
  with h show ?thesis by (simp add: handleHint_def)
next
  case ng: False
  show ?thesis
  proof (cases "minesPlaced g")
    case False
    let ?r = "randomBelow (hintRowRandom env) (rows (config g))"
    let ?c = "randomBelow (hintColRandom env) (cols (config g))"
    from h ng False have e: "(case handleCellClick env g ?r ?c of None \<Rightarrow> None
                 | Some g1 \<Rightarrow> Some (g1\<lparr>hintsUsed := hintsUsed g1 + 1\<rparr>)) = Some g'"
      by (simp add: handleHint_def Let_def)
    then obtain g1 where g1: "handleCellClick env g ?r ?c = Some g1"
      by (cases "handleCellClick env g ?r ?c") simp_all
    with e have "g' = g1\<lparr>hintsUsed := hintsUsed g1 + 1\<rparr>" by simp
    with g1 ng False show ?thesis by blast
  next
    case True
    with h ng have f: "(case findHintCell env g of None \<Rightarrow> None | Some None \<Rightarrow> Some g
                          | Some (Some hint) \<Rightarrow> Some (g\<lparr>hintsUsed := hintsUsed g + 1\<rparr>)) = Some g'"
      by (simp add: handleHint_def)
    show ?thesis
    proof (cases "findHintCell env g")
      case None
      with f show ?thesis by simp
    next
      case (Some hint)
      show ?thesis
      proof (cases hint)
        case None
        with f Some show ?thesis by simp
      next
        case (Some cell)
        with f \<open>findHintCell env g = Some hint\<close> have "g' = g\<lparr>hintsUsed := hintsUsed g + 1\<rparr>"
          by simp
        with ng True show ?thesis by blast
      qed
    qed
  qed
qed

lemma sessionInv_hint:
  assumes inv: "sessionInv g" and h: "handleHint env g = Some g'"
  shows "sessionInv g'"
proof -
  from handleHint_cases[OF h] consider "g' = g" | "g' = g\<lparr>hintsUsed := hintsUsed g + 1\<rparr>"
    | g1 r c where "handleCellClick env g r c = Some g1" "g' = g1\<lparr>hintsUsed := hintsUsed g1 + 1\<rparr>"
    by blast
  then show ?thesis
  proof cases
    case 1 then show ?thesis using inv by simp
  next
    case 2 then show ?thesis using inv by simp
  next
    case 3 then show ?thesis using sessionInv_click[OF inv 3(1)] by simp
  qed
qed

lemma reachable_sessionInv: "reachable g \<Longrightarrow> sessionInv g"
proof (induction rule: reachable.induct)
  case (pageLoad cfg s l)
  then show ?case by (rule sessionInv_fresh)
next
  case (newGame g cfg env)
  then show ?case by (simp add: sessionInv_startNewGame)
next
  case (click g env row col g')
  then show ?case using sessionInv_click by blast
next
  case (flag g row col g')
  then show ?case using sessionInv_toggleFlag by blast
next
  case (hint g env g')
  then show ?case using sessionInv_hint by blast
qed simp_all

lemma keepsCounters_refl [simp]: "keepsCounters g g"
  by (simp add: keepsCounters_def cellsRelated_refl)

lemma keepsCounters_trans:
  assumes "keepsCounters a b" "keepsCounters b c"
  shows "keepsCounters a c"
  using assms unfolding keepsCounters_def
  by (auto intro: cellsRelated_trans keepsFlags_trans)

lemma keepsCounters_startTimer [simp]: "keepsCounters g (startTimer env g)"
  by (simp add: keepsCounters_def cellsRelated_refl)

lemma keepsCounters_placeMines:
  assumes "placeMines env g r c = Some p"
  shows "keepsCounters g p"
proof -
  from placeMines_frame[OF assms] obtain b' where
    "p = g\<lparr>board := b', minesPlaced := True\<rparr>" "cellsRelated keepsFlags (board g) b'"
    by blast
  then show ?thesis by (simp add: keepsCounters_def)
qed

lemma keepsCounters_opensOnly:
  assumes "opensOnly g g'"
  shows "keepsCounters g g'"
proof -
  from assms obtain b' n where "g' = g\<lparr>board := b', openCount := n\<rparr>"
    unfolding opensOnly_def by blast
  moreover have "cellsRelated keepsFlags (board g) (board g')"
    using opensOnly_cellsRelated[OF assms] keepsFlagsAndMines_keepsFlags
    by (rule cellsRelated_mono)
  ultimately show ?thesis by (simp add: keepsCounters_def)
qed

lemma keepsCounters_openCell:
  assumes o: "openCell g row col = Some (opened, g')"
  shows "keepsCounters g g'"
proof -
  from o obtain x where x: "cellAt (board g) row col = Some x"
    by (cases "cellAt (board g) row col") (simp_all add: openCell_def)
  let ?g1 = "g\<lparr>board := setCell (board g) row col (x\<lparr>isOpen := True\<rparr>), openCount := openCount g + 1\<rparr>"
  have k1: "keepsCounters g ?g1"
    unfolding keepsCounters_def
    using cellsRelated_setCell[OF x, of keepsFlags "x\<lparr>isOpen := True\<rparr>"]
    by (simp add: keepsFlags_def)
  show ?thesis
  proof (cases "isOpen x \<or> isFlagged x")
    case True
    from openCell_noop[OF x True] o show ?thesis by simp
  next
    case closed: False
    then have c: "\<not> isOpen x" "\<not> isFlagged x" by simp_all
    show ?thesis
    proof (cases "isMine x")
      case True
      let ?e = "stopTimer (g\<lparr>board := setCell (board g) row col (x\<lparr>isOpen := True\<rparr>),
            openCount := openCount g + 1, isGameOver := True, didWin := False\<rparr>)"
      from revealMines_frame[OF openCell_mine_case[OF x c True o]] obtain b' where
        g': "g' = ?e\<lparr>board := b'\<rparr>" and rel: "cellsRelated keepsFlagsAndMines (board ?e) b'"
        by blast
      have "cellsRelated keepsFlags (board ?e) b'"
        using rel keepsFlagsAndMines_keepsFlags by (rule cellsRelated_mono)
      then have "keepsCounters ?g1 g'"
        by (simp add: keepsCounters_def g')
      with k1 show ?thesis by (rule keepsCounters_trans)
    next
      case False
      from openCell_safe_cases[OF x c False o] have "opensOnly ?g1 g'"
      proof
        assume "adjacent x = 0 \<and> floodOpen ?g1 row col = Some g'"
        then have "floodLoop (?g1, [(row, col)]) = Some g'" by (simp add: floodOpen_def)
        then show ?thesis by (rule floodLoop_opensOnly)
      next
        assume "adjacent x \<noteq> 0 \<and> g' = ?g1"
        then show ?thesis by (simp add: opensOnly_refl)
      qed
      then have "keepsCounters ?g1 g'" by (rule keepsCounters_opensOnly)
      with k1 show ?thesis by (rule keepsCounters_trans)
    qed
  qed
qed

lemma recordWin_fields [simp]:
  "config (recordWin t g) = config g"
  "board (recordWin t g) = board g"
  "flags (recordWin t g) = flags g"
  "openCount (recordWin t g) = openCount g"
  "minesPlaced (recordWin t g) = minesPlaced g"
  "isGameOver (recordWin t g) = isGameOver g"
  "didWin (recordWin t g) = didWin g"
  "hintsUsed (recordWin t g) = hintsUsed g"
  "settings (recordWin t g) = settings g"
  by (simp_all add: recordWin_def Let_def)

lemma checkWin_cases:
  "(rows (config g) * cols (config g) - mines (config g) \<le> openCount g \<and>
      checkWin g = Some (True, recordWin (elapsed g) (stopTimer (g\<lparr>isGameOver := True, didWin := True\<rparr>))))
   \<or> (openCount g < rows (config g) * cols (config g) - mines (config g) \<and> checkWin g = Some (False, g))"
  by (cases "rows (config g) * cols (config g) - mines (config g) \<le> openCount g")
     (simp_all add: checkWin_def endGame_def Let_def)

lemma keepsCounters_checkWin:
  assumes "checkWin g = Some (won, g')"
  shows "keepsCounters g g'"
  using checkWin_cases[of g] assms
  by (auto simp: keepsCounters_def cellsRelated_refl)

lemma keepsCounters_click:
  assumes c: "handleCellClick env g row col = Some g'"
  shows "keepsCounters g g'"
  using handleCellClick_cases[OF c]
proof
  assume "g' = g"
  then show ?thesis by simp
next
  assume "\<exists>x g1 opened g2. \<not> isGameOver g \<and> cellAt (board g) row col = Some x \<and> \<not> isOpen x \<and> \<not> isFlagged x \<and>
        (if minesPlaced g then g1 = g
         else \<exists>p. placeMines env g row col = Some p \<and> g1 = startTimer env p) \<and>
        openCell g1 row col = Some (opened, g2) \<and>
        (if isGameOver g2 then g' = g2 else \<exists>won. checkWin g2 = Some (won, g'))"
  then obtain g1 opened g2 where
    s: "if minesPlaced g then g1 = g
         else \<exists>p. placeMines env g row col = Some p \<and> g1 = startTimer env p"
    and o: "openCell g1 row col = Some (opened, g2)"
    and r: "if isGameOver g2 then g' = g2 else \<exists>won. checkWin g2 = Some (won, g')"
    by blast
  have 1: "keepsCounters g g1"
  proof (cases "minesPlaced g")
    case True
    with s show ?thesis by simp
  next
    case False
    with s obtain p where p: "placeMines env g row col = Some p" "g1 = startTimer env p" by auto
    have "keepsCounters p g1" by (simp add: p(2))
    with keepsCounters_placeMines[OF p(1)] show ?thesis by (rule keepsCounters_trans)
  qed
  have 2: "keepsCounters g1 g2" by (rule keepsCounters_openCell[OF o])
  have 3: "keepsCounters g2 g'"
    using r keepsCounters_checkWin by (cases "isGameOver g2") auto
  from 1 2 3 show ?thesis by (blast intro: keepsCounters_trans)
qed


lemma checkWin_total: "checkWin g \<noteq> None"
  using checkWin_cases[of g] by auto

lemma handleCellClick_total:
  assumes inv: "sessionInv g" and x: "cellAt (board g) row col \<noteq> None"
  shows "handleCellClick env g row col \<noteq> None"
proof -
  from x obtain cell where cell: "cellAt (board g) row col = Some cell" by auto
  show ?thesis
  proof (cases "isGameOver g \<or> isOpen cell \<or> isFlagged cell")
    case True
    then show ?thesis using cell by (auto simp: handleCellClick_def)
  next
    case False
    then have ng: "\<not> isGameOver g" and c: "\<not> isOpen cell" "\<not> isFlagged cell" by simp_all
    from inv have wf: "wfBoard (config g) (board g)" and v: "validConfig (config g)"
      by (simp_all add: sessionInv_def)
    have "\<exists>g1. (if \<not> minesPlaced g then map_option (startTimer env) (placeMines env g row col) else Some g) = Some g1
               \<and> playingInv g1 \<and> cellAt (board g1) row col \<noteq> None"
    proof (cases "minesPlaced g")
      case True
      then show ?thesis using inv ng cell by (simp add: sessionInv_def playingInv_def)
    next
      case False
      from inv False have z: "countCells isMine (board g) = 0" by (simp add: sessionInv_def)
      have nom: "\<forall>r c x. cellAt (board g) r c = Some x \<longrightarrow> \<not> isMine x"
        using countCells_zero_cells[OF z] by blast
      from v have m: "mines (config g) < rows (config g) * cols (config g)"
        by (simp add: validConfig_def)
      from placeMines_result[OF wf wf_inBounds[OF wf cell] m nom, where env = env]
      obtain p where p: "placeMines env g row col = Some p" by blast
      from placement_playingInv[OF inv False cell p] show ?thesis
        using False p by auto
    qed
    then obtain g1 where g1: "(if \<not> minesPlaced g then map_option (startTimer env) (placeMines env g row col) else Some g) = Some g1"
      and p1: "playingInv g1" and c1: "cellAt (board g1) row col \<noteq> None"
      by blast
    from p1 have "wfBoard (config g1) (board g1)" by (simp add: playingInv_def)
    from openCell_total[OF this c1] obtain opened g2 where o: "openCell g1 row col = Some (opened, g2)"
      by auto
    show ?thesis
      using ng cell c g1 o checkWin_total[of g2]
      by (auto simp: handleCellClick_def)
  qed
qed

lemma reachable_fresh: "validConfig cfg \<Longrightarrow> reachable (freshGlobals cfg)"
  unfolding freshGlobals_def by (rule reachable.pageLoad)

lemma validConfig_custom: "validConfig customConfig"
  by (simp add: validConfig_def customConfig_def)

lemma fresh_fields [simp]:
  "openCount (freshGlobals cfg) = 0"
  "flags (freshGlobals cfg) = 0"
  "hintsUsed (freshGlobals cfg) = 0"
  "\<not> isGameOver (freshGlobals cfg)"
  "\<not> minesPlaced (freshGlobals cfg)"
  by (simp_all add: freshGlobals_def createInitialState_def GameState.defs)



lemma placement_clicked_safe:
  assumes inv: "sessionInv g" and np: "\<not> minesPlaced g"
    and x: "cellAt (board g) row col = Some x"
    and pm: "placeMines env g row col = Some p"
  shows "\<exists>y. cellAt (board p) row col = Some y \<and> \<not> isMine y"
proof -
  from inv have wf: "wfBoard (config g) (board g)" and v: "validConfig (config g)"
    by (simp_all add: sessionInv_def)
  from inv np have z: "countCells isMine (board g) = 0" by (simp add: sessionInv_def)
  have nom: "\<forall>r c x. cellAt (board g) r c = Some x \<longrightarrow> \<not> isMine x"
    using countCells_zero_cells[OF z] by blast
  from v have m: "mines (config g) < rows (config g) * cols (config g)"
    by (simp add: validConfig_def)
  have inb: "inBounds (config g) row col" by (rule wf_inBounds[OF wf x])
  from placeMines_result[OF wf inb m nom, where env = env] obtain b' where
    raw: "placeMines env g row col = Some (g\<lparr>board := b', minesPlaced := True\<rparr>)"
      "\<forall>r c x. cellAt (board g) r c = Some x \<longrightarrow>
          (\<exists>y. cellAt b' r c = Some y \<and> isOpen y = isOpen x \<and> isFlagged y = isFlagged x \<and>
               isWrongFlag y = isWrongFlag x \<and>
               (cellIndex (config g) (r, c) \<in> exclusionsFor (config g) row col \<longrightarrow> \<not> isMine y))"
    by blast
  have p: "board p = b'" using raw(1) pm by simp
  from raw(2) x clicked_in_exclusionsFor[OF inb] show ?thesis
    unfolding p by blast
qed

lemma openCell_safe_opensOnly:
  assumes x: "cellAt (board g) row col = Some x" "\<not> isOpen x" "\<not> isFlagged x" "\<not> isMine x"
    and o: "openCell g row col = Some (opened, g')"
  shows "opensOnly g g' \<and> (\<exists>y. cellAt (board g') row col = Some y \<and> isOpen y)"
proof -
  let ?g1 = "g\<lparr>board := setCell (board g) row col (x\<lparr>isOpen := True\<rparr>), openCount := openCount g + 1\<rparr>"
  have o1: "opensOnly g ?g1"
    by (rule opensOnly_open[OF x])
  from openCell_safe_cases[OF x o] have o2: "opensOnly ?g1 g'"
  proof
    assume "adjacent x = 0 \<and> floodOpen ?g1 row col = Some g'"
    then have "floodLoop (?g1, [(row, col)]) = Some g'" by (simp add: floodOpen_def)
    then show ?thesis by (rule floodLoop_opensOnly)
  next
    assume "adjacent x \<noteq> 0 \<and> g' = ?g1"
    then show ?thesis by (simp add: opensOnly_refl)
  qed
  have "cellAt (board ?g1) row col = Some (x\<lparr>isOpen := True\<rparr>)"
    by (simp add: cellAt_setCell[OF x(1)])
  with o2 have "\<exists>y. cellAt (board g') row col = Some y \<and> isOpen y"
    unfolding opensOnly_def by fastforce
  moreover from o1 o2 have "opensOnly g g'" by (rule opensOnly_trans)
  ultimately show ?thesis by blast
qed

lemma click_safe_cell:
  assumes inv: "sessionInv g" and ng: "\<not> isGameOver g"
    and x: "cellAt (board g) row col = Some x" "\<not> isOpen x" "\<not> isFlagged x"
    and safe: "minesPlaced g \<longrightarrow> \<not> isMine x"
  shows "\<exists>g' y. handleCellClick env g row col = Some g' \<and> sessionInv g' \<and>
           cellAt (board g') row col = Some y \<and> isOpen y \<and>
           minesPlaced g' \<and> openMines (board g') = 0"
proof -
  define start where "start = (if \<not> minesPlaced g
                          then map_option (startTimer env) (placeMines env g row col)
                          else Some g)"
  have "\<exists>g1 y1. start = Some g1 \<and> playingInv g1 \<and> cellAt (board g1) row col = Some y1 \<and>
                 \<not> isOpen y1 \<and> \<not> isFlagged y1 \<and> \<not> isMine y1"
  proof (cases "minesPlaced g")
    case True
    then have "start = Some g" by (simp add: start_def)
    moreover have "playingInv g" using inv True ng by (simp add: sessionInv_def playingInv_def)
    ultimately show ?thesis using x safe True by blast
  next
    case False
    from handleCellClick_total[OF inv, of row col env] x(1)
    have wfx: "cellAt (board g) row col \<noteq> None" by simp
    from inv have wf: "wfBoard (config g) (board g)" and v: "validConfig (config g)"
      by (simp_all add: sessionInv_def)
    from inv False have z: "countCells isMine (board g) = 0" by (simp add: sessionInv_def)
    have nom: "\<forall>r c x. cellAt (board g) r c = Some x \<longrightarrow> \<not> isMine x"
      using countCells_zero_cells[OF z] by blast
    from v have m: "mines (config g) < rows (config g) * cols (config g)"
      by (simp add: validConfig_def)
    from placeMines_result[OF wf wf_inBounds[OF wf x(1)] m nom, where env = env]
    obtain p where p: "placeMines env g row col = Some p" by blast
    have s: "start = Some (startTimer env p)" using False p by (simp add: start_def)
    from placement_playingInv[OF inv False x(1) p] obtain y where
      pi: "playingInv p" and y: "cellAt (board p) row col = Some y" "isOpen y = isOpen x" "isFlagged y = isFlagged x"
      by blast
    from placement_clicked_safe[OF inv False x(1) p] y(1) have "\<not> isMine y" by simp
    then show ?thesis using s pi y x(2,3) by simp
  qed
  then obtain g1 y1 where s: "start = Some g1" and p1: "playingInv g1"
    and y1: "cellAt (board g1) row col = Some y1" "\<not> isOpen y1" "\<not> isFlagged y1" "\<not> isMine y1"
    by blast
  from p1 have wf1: "wfBoard (config g1) (board g1)" by (simp add: playingInv_def)
  from openCell_total[OF wf1] y1(1) obtain opened g2 where o: "openCell g1 row col = Some (opened, g2)"
    by fastforce
  from openCell_safe_opensOnly[OF y1 o] obtain y2 where
    oo: "opensOnly g1 g2" and y2: "cellAt (board g2) row col = Some y2" "isOpen y2"
    by blast
  have p2: "playingInv g2" by (rule playingInv_opensOnly[OF p1 oo])
  then have ng2: "\<not> isGameOver g2" by (simp add: playingInv_def)
  from checkWin_total[of g2] obtain won g' where cw: "checkWin g2 = Some (won, g')" by fastforce
  have inv': "sessionInv g'" by (rule playingInv_checkWin[OF p2 cw])
  have b': "board g' = board g2" "minesPlaced g' = minesPlaced g2"
    using checkWin_cases[of g2] cw by auto
  have click: "handleCellClick env g row col = Some g'"
    using ng x s o ng2 cw unfolding handleCellClick_def start_def[symmetric] by simp
  have "minesPlaced g'" "openMines (board g') = 0"
    using p2 b' by (simp_all add: playingInv_def)
  with click inv' y2 b'(1) show ?thesis by auto
qed

lemma hintScan_loop:
  assumes "\<forall>(r, c) \<in> set ps. cellAt (board g) r c \<noteq> None"
  shows "forEachM (hintScan g) ps (zs, cs) =
           Some (zs @ filter (\<lambda>(r, c). \<exists>x. cellAt (board g) r c = Some x \<and> hintable x \<and> adjacent x = 0) ps,
                 cs @ filter (\<lambda>(r, c). \<exists>x. cellAt (board g) r c = Some x \<and> hintable x \<and> adjacent x \<noteq> 0) ps)"
  using assms
proof (induction ps arbitrary: zs cs)
  case Nil
  then show ?case by simp
next
  case (Cons p ps)
  obtain r c where p: "p = (r, c)" by (cases p)
  from Cons.prems p obtain x where x: "cellAt (board g) r c = Some x" by auto
  have rest: "\<forall>(r, c) \<in> set ps. cellAt (board g) r c \<noteq> None" using Cons.prems by simp
  consider (skip) "\<not> hintable x" | (zero) "hintable x" "adjacent x = 0" | (num) "hintable x" "adjacent x \<noteq> 0"
    by blast
  then show ?case
  proof cases
    case skip
    then have "hintScan g p (zs, cs) = Some (zs, cs)"
      by (auto simp: hintScan_def p x hintable_def)
    then show ?thesis using skip x by (simp add: Cons.IH[OF rest] p)
  next
    case zero
    then have "hintScan g p (zs, cs) = Some (zs @ [(r, c)], cs)"
      by (auto simp: hintScan_def p x hintable_def)
    then show ?thesis using zero x by (simp add: Cons.IH[OF rest] p)
  next
    case num
    then have "hintScan g p (zs, cs) = Some (zs, cs @ [(r, c)])"
      by (auto simp: hintScan_def p x hintable_def)
    then show ?thesis using num x by (simp add: Cons.IH[OF rest] p)
  qed
qed

lemma findHintCell_result:
  assumes wf: "wfBoard (config g) (board g)"
  shows "findHintCell env g \<noteq> None \<and>
         (findHintCell env g = Some None \<longleftrightarrow> countCells hintable (board g) = 0)"
proof -
  let ?ps = "gridCoords (rows (config g)) (cols (config g))"
  let ?Z = "filter (\<lambda>(r, c). \<exists>x. cellAt (board g) r c = Some x \<and> hintable x \<and> adjacent x = 0) ?ps"
  let ?C = "filter (\<lambda>(r, c). \<exists>x. cellAt (board g) r c = Some x \<and> hintable x \<and> adjacent x \<noteq> 0) ?ps"
  have pre: "\<forall>(r, c) \<in> set ?ps. cellAt (board g) r c \<noteq> None"
    using wfBoard_cellAt[OF wf] by (auto simp: in_gridCoords)
  have scan: "forEachM (hintScan g) ?ps ([], []) = Some (?Z, ?C)"
    using hintScan_loop[OF pre, of "[]" "[]"] by simp
  let ?pool = "if length ?Z > 0 then ?Z else ?C"
  have f: "findHintCell env g =
      (if length ?pool = 0 then Some None
       else Some (Some (?pool ! nat (randomBelow (hintPoolRandom env) (int (length ?pool))))))"
    unfolding findHintCell_def scan by (simp add: Let_def)
  have empty: "length ?pool = 0 \<longleftrightarrow> countCells hintable (board g) = 0"
  proof
    assume e: "length ?pool = 0"
    then have z: "?Z = []" and c: "?C = []" by (auto split: if_splits)
    show "countCells hintable (board g) = 0"
    proof (rule countCells_zero)
      fix r col x assume x: "cellAt (board g) r col = Some x"
      then have m: "(r, col) \<in> set ?ps"
        using wfBoard_cellAt[OF wf, of r col] by (simp add: in_gridCoords)
      show "\<not> hintable x"
      proof
        assume h: "hintable x"
        show False
        proof (cases "adjacent x = 0")
          case True
          with m x h have "(r, col) \<in> set ?Z" by simp
          with z show False by simp
        next
          case False
          with m x h have "(r, col) \<in> set ?C" by simp
          with c show False by simp
        qed
      qed
    qed
  next
    assume n: "countCells hintable (board g) = 0"
    have "?Z = []"
      unfolding filter_empty_conv using countCells_zero_cells[OF n] by auto
    moreover have "?C = []"
      unfolding filter_empty_conv using countCells_zero_cells[OF n] by auto
    ultimately show "length ?pool = 0" by simp
  qed
  show ?thesis
    unfolding f using empty by (auto split: if_splits)
qed

lemma randomBelow_inBounds:
  assumes "validConfig cfg"
  shows "inBounds cfg (randomBelow a (rows cfg)) (randomBelow b (cols cfg))"
  using assms randomBelow_range[of "rows cfg" a] randomBelow_range[of "cols cfg" b]
  by (simp add: inBounds_def validConfig_def)

lemma handleHint_total:
  assumes inv: "sessionInv g"
  shows "handleHint env g \<noteq> None"
proof -
  from inv have wf: "wfBoard (config g) (board g)" and v: "validConfig (config g)"
    by (simp_all add: sessionInv_def)
  let ?r = "randomBelow (hintRowRandom env) (rows (config g))"
  let ?c = "randomBelow (hintColRandom env) (cols (config g))"
  have "cellAt (board g) ?r ?c \<noteq> None"
    using randomBelow_inBounds[OF v] wfBoard_cellAt[OF wf, of ?r ?c] by (simp add: inBounds_def)
  from handleCellClick_total[OF inv this, of env] obtain g1 where
    "handleCellClick env g ?r ?c = Some g1" by auto
  moreover from findHintCell_result[OF wf, of env] obtain h where "findHintCell env g = Some h" by auto
  ultimately show ?thesis
    by (cases h) (auto simp: handleHint_def Let_def)
qed


lemma toggleFlag_closed:
  assumes ng: "\<not> isGameOver g" and x: "cellAt (board g) row col = Some x" "\<not> isOpen x"
  shows "toggleFlag g row col =
           Some (g\<lparr>board := setCell (board g) row col (x\<lparr>isFlagged := \<not> isFlagged x\<rparr>),
                   flags := flags g + (if isFlagged x then - 1 else 1)\<rparr>)"
  using assms by (simp add: toggleFlag_def Let_def)

lemma timer_fields [simp]:
  "flags (resetTimerOnly env g) = flags g" "board (resetTimerOnly env g) = board g"
  "hintsUsed (resetTimerOnly env g) = hintsUsed g"
  "flags (updateTimer env g) = flags g" "board (updateTimer env g) = board g"
  "hintsUsed (updateTimer env g) = hintsUsed g"
  by (simp_all add: resetTimerOnly_def updateTimer_def Let_def split: option.splits)

lemma startNewGame_fields [simp]:
  "flags (startNewGame env cfg g) = 0"
  "hintsUsed (startNewGame env cfg g) = 0"
  "board (startNewGame env cfg g) = createEmptyBoard (rows cfg) (cols cfg)"
  by (simp_all add: startNewGame_def createInitialState_def GameState.defs)

lemma cellAt_replicate:
  "cellAt (replicate m (replicate n x)) r c =
     (if 0 \<le> r \<and> r < int m \<and> 0 \<le> c \<and> c < int n then Some x else None)"
  by (auto simp: cellAt_def)

lemma hintlessState_fields:
  "\<not> isGameOver hintlessState" "minesPlaced hintlessState" "hintsUsed hintlessState = 0"
  "config hintlessState = customConfig"
  by (simp_all add: hintlessState_def)

lemma wf_hintlessState: "wfBoard (config hintlessState) (board hintlessState)"
  by (simp add: hintlessState_def wfBoard_def customConfig_def)

lemma hintlessState_pool: "countCells hintable (board hintlessState) = 0"
proof (rule countCells_zero)
  fix r c x assume "cellAt (board hintlessState) r c = Some x"
  then show "\<not> hintable x"
    by (auto simp: hintlessState_def cellAt_setCell cellAt_replicate hintable_def split: if_splits)
qed

lemma handleHint_exhausted:
  assumes "\<not> isGameOver g" "minesPlaced g" "findHintCell env g = Some None"
  shows "handleHint env g = Some g"
  using assms by (simp add: handleHint_def)

lemma handleHint_counts:
  assumes h: "handleHint env g = Some g'" and ng: "\<not> isGameOver g"
    and ne: "\<not> (minesPlaced g \<and> findHintCell env g = Some None)"
  shows "hintsUsed g' = hintsUsed g + 1"
proof (cases "minesPlaced g")
  case False
  let ?r = "randomBelow (hintRowRandom env) (rows (config g))"
  let ?c = "randomBelow (hintColRandom env) (cols (config g))"
  from h ng False have e: "(case handleCellClick env g ?r ?c of None \<Rightarrow> None
                 | Some g1 \<Rightarrow> Some (g1\<lparr>hintsUsed := hintsUsed g1 + 1\<rparr>)) = Some g'"
    by (simp add: handleHint_def Let_def)
  then obtain g1 where g1: "handleCellClick env g ?r ?c = Some g1"
    by (cases "handleCellClick env g ?r ?c") simp_all
  with e have "g' = g1\<lparr>hintsUsed := hintsUsed g1 + 1\<rparr>" by simp
  moreover have "hintsUsed g1 = hintsUsed g"
    using keepsCounters_click[OF g1] by (simp add: keepsCounters_def)
  ultimately show ?thesis by simp
next
  case True
  with h ng have f: "(case findHintCell env g of None \<Rightarrow> None | Some None \<Rightarrow> Some g
                          | Some (Some hint) \<Rightarrow> Some (g\<lparr>hintsUsed := hintsUsed g + 1\<rparr>)) = Some g'"
    by (simp add: handleHint_def)
  show ?thesis
  proof (cases "findHintCell env g")
    case None
    with f show ?thesis by simp
  next
    case (Some hint)
    show ?thesis
    proof (cases hint)
      case None
      with Some True ne show ?thesis by simp
    next
      case (Some cell)
      with f \<open>findHintCell env g = Some hint\<close> have "g' = g\<lparr>hintsUsed := hintsUsed g + 1\<rparr>"
        by simp
      then show ?thesis by simp
    qed
  qed
qed

lemma handleHint_monotone:
  assumes "handleHint env g = Some g'"
  shows "hintsUsed g \<le> hintsUsed g'"
proof -
  from handleHint_cases[OF assms] consider "g' = g" | "g' = g\<lparr>hintsUsed := hintsUsed g + 1\<rparr>"
    | g1 r c where "handleCellClick env g r c = Some g1" "g' = g1\<lparr>hintsUsed := hintsUsed g1 + 1\<rparr>"
    by blast
  then show ?thesis
  proof cases
    case 1 then show ?thesis by simp
  next
    case 2 then show ?thesis by simp
  next
    case 3
    from keepsCounters_click[OF 3(1)] have "hintsUsed g1 = hintsUsed g"
      by (simp add: keepsCounters_def)
    then show ?thesis by (simp add: 3(2))
  qed
qed

lemma toggleFlag_hintsUsed:
  assumes "toggleFlag g row col = Some g'"
  shows "hintsUsed g' = hintsUsed g"
proof (cases "isGameOver g")
  case True
  with assms show ?thesis by (simp add: toggleFlag_def)
next
  case ng: False
  from assms ng obtain x where x: "cellAt (board g) row col = Some x"
    by (cases "cellAt (board g) row col") (simp_all add: toggleFlag_def)
  show ?thesis
  proof (cases "isOpen x")
    case True
    with assms ng x show ?thesis by (simp add: toggleFlag_def)
  next
    case False
    from toggleFlag_closed[OF ng x False] assms show ?thesis by auto
  qed
qed

section \<open>Win condition\<close>



section \<open>Flag counter\<close>



section \<open>Hint counter\<close>

text \<open>
  A session in which the hint finds nothing, for every shuffle: in the 6x6 game with 32
  mines, flag (0,1), (1,0) and (1,1), then reveal (0,0).  The four corner cells are the
  exclusion zone, so the 32 mines fill the rest of the board; (0,0) opens showing 0, the
  flood fill skips its flagged neighbours, and the game goes on with every closed cell
  flagged or mined.
\<close>

lemma validConfig_packed: "validConfig packedConfig"
  by (simp add: validConfig_def packedConfig_def)

lemma safe_positions_bound:
  assumes "distinct ps" "\<forall>(r, c) \<in> set ps. \<exists>x. cellAt b r c = Some x \<and> \<not> isMine x"
  shows "length ps \<le> countCells (\<lambda>x. \<not> isMine x) b"
  using assms
proof (induction ps arbitrary: b)
  case Nil
  then show ?case by simp
next
  case (Cons p ps)
  obtain r c where p: "p = (r, c)" by (cases p)
  from Cons.prems(2) obtain x where x: "cellAt b r c = Some x" "\<not> isMine x"
    by (auto simp: p)
  let ?b = "setCell b r c (x\<lparr>isMine := True\<rparr>)"
  have cnt: "countCells (\<lambda>x. \<not> isMine x) ?b + 1 = countCells (\<lambda>x. \<not> isMine x) b"
    using countCells_setCell[OF x(1), of "\<lambda>x. \<not> isMine x" "x\<lparr>isMine := True\<rparr>"] x(2) by simp
  have "\<forall>(r', c') \<in> set ps. \<exists>y. cellAt ?b r' c' = Some y \<and> \<not> isMine y"
  proof (clarify)
    fix r' c' assume m: "(r', c') \<in> set ps"
    with Cons.prems(1) have "(r', c') \<noteq> (r, c)" by (auto simp: p)
    moreover from Cons.prems(2) m obtain y where "cellAt b r' c' = Some y" "\<not> isMine y" by auto
    ultimately show "\<exists>y. cellAt ?b r' c' = Some y \<and> \<not> isMine y"
      by (auto simp: cellAt_setCell[OF x(1)])
  qed
  moreover have "distinct ps" using Cons.prems(1) by simp
  ultimately have "length ps \<le> countCells (\<lambda>x. \<not> isMine x) ?b" by (rule Cons.IH[rotated])
  with cnt show ?case by simp
qed

lemma packed_corner_excluded:
  assumes "0 \<le> r" "r \<le> 1" "0 \<le> c" "c \<le> 1"
  shows "cellIndex packedConfig (r, c) \<in> exclusionsFor packedConfig 0 0"
proof -
  have n: "(r, c) \<in> set (clippedNeighbourhood packedConfig 0 0)"
    using assms by (simp add: in_clippedNeighbourhood inBounds_def packedConfig_def)
  have d: "distinct (clippedNeighbourhood packedConfig 0 0)"
    by (rule distinct_clippedNeighbourhood)
  have sub: "set (clippedNeighbourhood packedConfig 0 0) \<subseteq> {0, 1} \<times> {0, 1}"
    by (auto simp: in_clippedNeighbourhood inBounds_def packedConfig_def)
  have "card (set (clippedNeighbourhood packedConfig 0 0)) \<le> card ({0, 1 :: int} \<times> {0, 1 :: int})"
    by (rule card_mono[OF _ sub]) simp
  then have "length (clippedNeighbourhood packedConfig 0 0) \<le> 4"
    using distinct_card[OF d] by simp
  then have "\<not> rows packedConfig * cols packedConfig
                 - int (length (clippedNeighbourhood packedConfig 0 0)) < mines packedConfig"
    by (simp add: packedConfig_def)
  with exclusionsFor_cases[of packedConfig 0 0]
  have "exclusionsFor packedConfig 0 0 = cellIndex packedConfig ` set (clippedNeighbourhood packedConfig 0 0)"
    by auto
  with n show ?thesis by blast
qed


lemma packed_flagged_session:
  "\<exists>g1 g2 g3. toggleFlag (freshGlobals packedConfig) 0 1 = Some g1 \<and> toggleFlag g1 1 0 = Some g2 \<and>
      toggleFlag g2 1 1 = Some g3 \<and> reachable g3 \<and> config g3 = packedConfig \<and>
      \<not> isGameOver g3 \<and> \<not> minesPlaced g3 \<and> hintsUsed g3 = 0 \<and>
      (\<forall>r c. cellAt (board g3) r c =
         (if 0 \<le> r \<and> r < 6 \<and> 0 \<le> c \<and> c < 6
          then Some \<lparr>isMine = False, isOpen = False,
                     isFlagged = (r = 0 \<and> c = 1 \<or> r = 1 \<and> c = 0 \<or> r = 1 \<and> c = 1),
                     adjacent = 0, isWrongFlag = False\<rparr>
          else None))"
proof -
  define E where "E = \<lparr>isMine = False, isOpen = False, isFlagged = False, adjacent = 0, isWrongFlag = False\<rparr>"
  define F where "F = \<lparr>isMine = False, isOpen = False, isFlagged = True, adjacent = 0, isWrongFlag = False\<rparr>"
  define g0 where "g0 = freshGlobals packedConfig"
  define b0 where "b0 = createEmptyBoard 6 6"
  define b1 where "b1 = setCell b0 0 1 F"
  define b2 where "b2 = setCell b1 1 0 F"
  define b3 where "b3 = setCell b2 1 1 F"
  define g1 where "g1 = g0\<lparr>board := b1, flags := 1\<rparr>"
  define g2 where "g2 = g1\<lparr>board := b2, flags := 2\<rparr>"
  define g3 where "g3 = g2\<lparr>board := b3, flags := 3\<rparr>"
  have bg0: "board g0 = b0" by (simp add: g0_def b0_def packedConfig_def)
  have f0: "\<not> isGameOver g0" "\<not> minesPlaced g0" "hintsUsed g0 = 0" "flags g0 = 0"
    "config g0 = packedConfig"
    by (simp_all add: g0_def)
  have c0: "cellAt b0 r c = (if 0 \<le> r \<and> r < 6 \<and> 0 \<le> c \<and> c < 6 then Some E else None)" for r c
    by (simp add: b0_def cellAt_createEmptyBoard E_def)
  have c1: "cellAt b1 r c = (if r = 0 \<and> c = 1 then Some F else cellAt b0 r c)" for r c
    unfolding b1_def by (rule cellAt_setCell[of b0 0 1 E]) (simp add: c0)
  have c2: "cellAt b2 r c = (if r = 1 \<and> c = 0 then Some F else cellAt b1 r c)" for r c
    unfolding b2_def by (rule cellAt_setCell[of b1 1 0 E]) (simp add: c1 c0)
  have c3: "cellAt b3 r c = (if r = 1 \<and> c = 1 then Some F else cellAt b2 r c)" for r c
    unfolding b3_def by (rule cellAt_setCell[of b2 1 1 E]) (simp add: c2 c1 c0)
  have t1: "toggleFlag g0 0 1 = Some g1"
    using toggleFlag_closed[of g0 0 1 E] f0
    by (simp add: bg0 c0 g1_def b1_def E_def F_def)
  have t2: "toggleFlag g1 1 0 = Some g2"
    using toggleFlag_closed[of g1 1 0 E] f0
    by (simp add: g1_def c1 c0 g2_def b2_def E_def F_def)
  have t3: "toggleFlag g2 1 1 = Some g3"
    using toggleFlag_closed[of g2 1 1 E] f0
    by (simp add: g2_def g1_def c2 c1 c0 g3_def b3_def E_def F_def)
  have "reachable g0" unfolding g0_def by (rule reachable_fresh[OF validConfig_packed])
  then have "reachable g1" using t1 by (rule reachable.flag)
  then have "reachable g2" using t2 by (rule reachable.flag)
  then have r3: "reachable g3" using t3 by (rule reachable.flag)
  have f3: "config g3 = packedConfig" "\<not> isGameOver g3" "\<not> minesPlaced g3" "hintsUsed g3 = 0"
    using f0 by (simp_all add: g3_def g2_def g1_def)
  have cells: "\<forall>r c. cellAt (board g3) r c =
         (if 0 \<le> r \<and> r < 6 \<and> 0 \<le> c \<and> c < 6
          then Some \<lparr>isMine = False, isOpen = False,
                     isFlagged = (r = 0 \<and> c = 1 \<or> r = 1 \<and> c = 0 \<or> r = 1 \<and> c = 1),
                     adjacent = 0, isWrongFlag = False\<rparr>
          else None)"
    by (auto simp: g3_def c3 c2 c1 c0 E_def F_def)
  from t1 t2 t3 r3 f3 cells show ?thesis unfolding g0_def by blast
qed


lemma packed_click:
  assumes r3: "reachable g3" and cfg: "config g3 = packedConfig"
    and f3: "\<not> isGameOver g3" "\<not> minesPlaced g3" "hintsUsed g3 = 0"
    and cells: "\<forall>r c. cellAt (board g3) r c =
         (if 0 \<le> r \<and> r < 6 \<and> 0 \<le> c \<and> c < 6
          then Some \<lparr>isMine = False, isOpen = False,
                     isFlagged = (r = 0 \<and> c = 1 \<or> r = 1 \<and> c = 0 \<or> r = 1 \<and> c = 1),
                     adjacent = 0, isWrongFlag = False\<rparr>
          else None)"
  shows "\<exists>g. handleCellClick env g3 0 0 = Some g \<and> reachable g \<and> \<not> isGameOver g \<and>
           minesPlaced g \<and> hintsUsed g = 0 \<and> wfBoard (config g) (board g) \<and>
           countCells hintable (board g) = 0"
proof -
  have inv3: "sessionInv g3" by (rule reachable_sessionInv[OF r3])
  then have wf3: "wfBoard packedConfig (board g3)" by (simp add: sessionInv_def cfg)
  have x00: "cellAt (board g3) 0 0 = Some \<lparr>isMine = False, isOpen = False, isFlagged = False,
      adjacent = 0, isWrongFlag = False\<rparr>"
    using cells by simp
  from click_safe_cell[OF inv3 f3(1) x00, of env] f3(2)
  obtain g y where c: "handleCellClick env g3 0 0 = Some g" and inv: "sessionInv g"
    and y: "cellAt (board g) 0 0 = Some y" "isOpen y" and mp: "minesPlaced g"
    by auto
  have ne: "g \<noteq> g3" using mp f3(2) by auto
  from handleCellClick_cases[OF c] ne f3(2)
  obtain p opened g2 where pm: "placeMines env g3 0 0 = Some p"
    and oc: "openCell (startTimer env p) 0 0 = Some (opened, g2)"
    and fin: "if isGameOver g2 then g = g2 else \<exists>won. checkWin g2 = Some (won, g)"
    by auto
  have nom: "\<forall>r c x. cellAt (board g3) r c = Some x \<longrightarrow> \<not> isMine x"
    using cells by (auto split: if_splits)
  have "\<exists>b'. placeMines env g3 0 0 = Some (g3\<lparr>board := b', minesPlaced := True\<rparr>) \<and>
      map length b' = map length (board g3) \<and>
      (\<forall>r c x. cellAt (board g3) r c = Some x \<longrightarrow>
          (\<exists>y. cellAt b' r c = Some y \<and> isOpen y = isOpen x \<and> isFlagged y = isFlagged x \<and>
               isWrongFlag y = isWrongFlag x \<and>
               (cellIndex (config g3) (r, c) \<in> exclusionsFor (config g3) 0 0 \<longrightarrow> \<not> isMine y))) \<and>
      int (countCells isMine b') = max 0 (mines (config g3))"
    by (rule placeMines_result[where env = env])
       (simp_all add: cfg wf3 nom, simp_all add: packedConfig_def inBounds_def)
  then obtain b' where pm': "placeMines env g3 0 0 = Some (g3\<lparr>board := b', minesPlaced := True\<rparr>)"
    and len: "map length b' = map length (board g3)"
    and pc0: "\<forall>r c x. cellAt (board g3) r c = Some x \<longrightarrow>
          (\<exists>y. cellAt b' r c = Some y \<and> isOpen y = isOpen x \<and> isFlagged y = isFlagged x \<and>
               isWrongFlag y = isWrongFlag x \<and>
               (cellIndex (config g3) (r, c) \<in> exclusionsFor (config g3) 0 0 \<longrightarrow> \<not> isMine y))"
    and cnt0: "int (countCells isMine b') = max 0 (mines (config g3))"
    by blast
  have p: "p = g3\<lparr>board := b', minesPlaced := True\<rparr>" using pm pm' by simp
  have pc: "\<exists>y. cellAt b' r c = Some y \<and> isOpen y = isOpen x \<and> isFlagged y = isFlagged x \<and>
               (cellIndex packedConfig (r, c) \<in> exclusionsFor packedConfig 0 0 \<longrightarrow> \<not> isMine y)"
    if "cellAt (board g3) r c = Some x" for r c x
    using pc0[rule_format, OF that] unfolding cfg by blast
  have cnt: "countCells isMine b' = 32" using cnt0 by (simp add: cfg packedConfig_def)
  have wfb: "wfBoard packedConfig b'" using wf3 len by (simp add: wfBoard_def)
  have corner: "\<exists>y. cellAt b' r c = Some y \<and> \<not> isMine y \<and> \<not> isOpen y \<and>
      isFlagged y = (r = 0 \<and> c = 1 \<or> r = 1 \<and> c = 0 \<or> r = 1 \<and> c = 1)"
    if "0 \<le> r" "r \<le> 1" "0 \<le> c" "c \<le> 1" for r c
  proof -
    have "cellAt (board g3) r c = Some \<lparr>isMine = False, isOpen = False,
                     isFlagged = (r = 0 \<and> c = 1 \<or> r = 1 \<and> c = 0 \<or> r = 1 \<and> c = 1),
                     adjacent = 0, isWrongFlag = False\<rparr>"
      using cells that by simp
    from pc[OF this] packed_corner_excluded[OF that] show ?thesis by auto
  qed
  have total: "countCells (\<lambda>x. True) b' = 36"
    using countCells_all[OF wfb] by (simp add: packedConfig_def)
  have "countCells (\<lambda>x. True) b' = countCells isMine b' + countCells (\<lambda>x. \<not> isMine x) b'"
    using countCells_split[of "\<lambda>x. True" b' isMine] by simp
  with total cnt have safe4: "countCells (\<lambda>x. \<not> isMine x) b' = 4" by simp
  have outside: "isMine x" if x: "cellAt b' r c = Some x" and o: "\<not> (0 \<le> r \<and> r \<le> 1 \<and> 0 \<le> c \<and> c \<le> 1)"
    for r c x
  proof (rule ccontr)
    assume s: "\<not> isMine x"
    have d: "distinct [(0, 0), (0, 1), (1, 0), (1, 1), (r, c)]" using o by auto
    have "\<forall>(r', c') \<in> set [(0, 0), (0, 1), (1, 0), (1, 1), (r, c)].
            \<exists>x. cellAt b' r' c' = Some x \<and> \<not> isMine x"
      using corner[of 0 0] corner[of 0 1] corner[of 1 0] corner[of 1 1] x s by auto
    from safe_positions_bound[OF d this] safe4 show False by simp
  qed
  let ?g1 = "startTimer env p"
  have b1: "board ?g1 = b'" by (simp add: p)
  from corner[of 0 0] obtain y0 where y0: "cellAt (board ?g1) 0 0 = Some y0" "\<not> isOpen y0"
    "\<not> isFlagged y0" "\<not> isMine y0"
    by (auto simp: p)
  from openCell_safe_opensOnly[OF y0 oc] have oo: "opensOnly ?g1 g2" by simp
  then obtain bb n where g2: "g2 = ?g1\<lparr>board := bb, openCount := n\<rparr>"
    unfolding opensOnly_def by blast
  have step: "cellAt (board g2) r c = Some x \<or>
        (\<not> isOpen x \<and> \<not> isFlagged x \<and> \<not> isMine x \<and> cellAt (board g2) r c = Some (x\<lparr>isOpen := True\<rparr>))"
    if "cellAt b' r c = Some x" for r c x
    using oo that unfolding opensOnly_def b1 by blast
  have f2: "\<not> isGameOver g2" "minesPlaced g2" "hintsUsed g2 = 0" "config g2 = packedConfig"
    using f3 cfg by (simp_all add: g2 p)
  have wf2: "wfBoard packedConfig (board g2)"
    using opensOnly_wf[OF oo] wfb by (simp add: f2 b1 p cfg)
  have flagged: "\<exists>y. cellAt (board g2) 0 1 = Some y \<and> \<not> isMine y \<and> \<not> isOpen y"
  proof -
    from corner[of 0 1] obtain y where y: "cellAt b' 0 1 = Some y" "\<not> isMine y" "\<not> isOpen y" "isFlagged y"
      by auto
    from step[OF y(1)] y(4) have "cellAt (board g2) 0 1 = Some y" by auto
    with y show ?thesis by blast
  qed
  have g: "g = g2"
  proof -
    from fin f2(1) obtain won where w: "checkWin g2 = Some (won, g)" by auto
    show ?thesis
    proof (rule ccontr)
      assume "g \<noteq> g2"
      with checkWin_cases[of g2] w
      have gw: "g = recordWin (elapsed g2) (stopTimer (g2\<lparr>isGameOver := True, didWin := True\<rparr>))"
        by auto
      have "isGameOver g \<and> didWin g" "board g = board g2" by (simp_all add: gw)
      with inv have "safeCellsLeft (board g2) = 0" by (simp add: sessionInv_def)
      moreover from flagged obtain y where "cellAt (board g2) 0 1 = Some y" "\<not> isMine y \<and> \<not> isOpen y"
        by blast
      then have "0 < countCells (\<lambda>x. \<not> isMine x \<and> \<not> isOpen x) (board g2)"
        by (rule countCells_pos)
      ultimately show False by (simp add: safeCellsLeft_def)
    qed
  qed
  have pool: "countCells hintable (board g2) = 0"
  proof (rule countCells_zero)
    fix r c z assume z: "cellAt (board g2) r c = Some z"
    then have "cellAt (board g2) r c \<noteq> None" by simp
    then have "cellAt b' r c \<noteq> None"
      using wfBoard_cellAt[OF wf2, of r c] wfBoard_cellAt[OF wfb, of r c] by simp
    then obtain x where x: "cellAt b' r c = Some x" by auto
    from step[OF x] z have zx: "z = x \<or> isOpen z" by auto
    show "\<not> hintable z"
    proof (cases "0 \<le> r \<and> r \<le> 1 \<and> 0 \<le> c \<and> c \<le> 1")
      case True
      then have rc: "r = 0 \<or> r = 1" "c = 0 \<or> c = 1" by auto
      show ?thesis
      proof (cases "r = 0 \<and> c = 0")
        case True
        with y g z show ?thesis by (simp add: hintable_def)
      next
        case False
        with corner[of r c] rc x have "isFlagged x" by auto
        with zx show ?thesis by (auto simp: hintable_def)
      qed
    next
      case False
      from outside[OF x False] zx show ?thesis by (auto simp: hintable_def)
    qed
  qed
  have "reachable g" using r3 c by (rule reachable.click)
  with c f2 pool wf2 show ?thesis unfolding g by auto
qed

lemma hint_exhausted_session:
  "\<exists>g1 g2 g3 g. toggleFlag (freshGlobals packedConfig) 0 1 = Some g1 \<and> toggleFlag g1 1 0 = Some g2 \<and>
      toggleFlag g2 1 1 = Some g3 \<and> handleCellClick env g3 0 0 = Some g \<and>
      reachable g \<and> \<not> isGameOver g \<and> hintsUsed g = 0 \<and>
      minesPlaced g \<and> countCells hintable (board g) = 0 \<and> handleHint env g = Some g"
proof -
  from packed_flagged_session obtain g1 g2 g3 where
    t: "toggleFlag (freshGlobals packedConfig) 0 1 = Some g1" "toggleFlag g1 1 0 = Some g2"
      "toggleFlag g2 1 1 = Some g3"
    and r3: "reachable g3" and cfg: "config g3 = packedConfig"
    and f3: "\<not> isGameOver g3" "\<not> minesPlaced g3" "hintsUsed g3 = 0"
    and cells: "\<forall>r c. cellAt (board g3) r c =
         (if 0 \<le> r \<and> r < 6 \<and> 0 \<le> c \<and> c < 6
          then Some \<lparr>isMine = False, isOpen = False,
                     isFlagged = (r = 0 \<and> c = 1 \<or> r = 1 \<and> c = 0 \<or> r = 1 \<and> c = 1),
                     adjacent = 0, isWrongFlag = False\<rparr>
          else None)"
    by blast
  from packed_click[OF r3 cfg f3 cells, of env] obtain g where
    g: "handleCellClick env g3 0 0 = Some g" "reachable g" "\<not> isGameOver g" "minesPlaced g"
      "hintsUsed g = 0" "wfBoard (config g) (board g)" "countCells hintable (board g) = 0"
    by blast
  have "findHintCell env g = Some None"
    using findHintCell_result[OF g(6), of env] g(7) by simp
  then have "handleHint env g = Some g"
    by (intro handleHint_exhausted g)
  with t g show ?thesis by blast
qed

text \<open>
  C4, as stated, fails: in a running session whose mines are placed and whose closed cells
  are all flagged or mined, \<open>findHintCell\<close> returns \<open>null\<close> and \<open>handleHint\<close> returns after
  the message, before the increment.  \<open>hintlessState\<close> is such a session written out: the 6x6
  game with 34 mines after flagging (5,5) and revealing (0,0), the shuffle having left the
  candidates in order.  The session of the 6x6 game with 32 mines above is reached from the
  page load by three flags and one reveal, and there too the hint leaves the counter at 0.
\<close>

theorem hint_without_increment_counterexample:
  "\<not> isGameOver hintlessState \<and> hintsUsed hintlessState = 0 \<and>
   map_option hintsUsed (handleHint sampleEnv hintlessState) = Some 0 \<and>
   (\<exists>g1 g2 g3 g.
      toggleFlag (freshGlobals packedConfig) 0 1 = Some g1 \<and> toggleFlag g1 1 0 = Some g2 \<and>
      toggleFlag g2 1 1 = Some g3 \<and> handleCellClick sampleEnv g3 0 0 = Some g \<and>
      reachable g \<and> \<not> isGameOver g \<and> hintsUsed g = 0 \<and>
      map_option hintsUsed (handleHint sampleEnv g) = Some 0)"
proof -
  have "findHintCell sampleEnv hintlessState = Some None"
    using findHintCell_result[OF wf_hintlessState, of sampleEnv] hintlessState_pool by simp
  then have "handleHint sampleEnv hintlessState = Some hintlessState"
    by (intro handleHint_exhausted) (simp_all add: hintlessState_fields)
  then have a: "\<not> isGameOver hintlessState \<and> hintsUsed hintlessState = 0 \<and>
      map_option hintsUsed (handleHint sampleEnv hintlessState) = Some 0"
    by (simp add: hintlessState_fields)
  from hint_exhausted_session[of sampleEnv] obtain g1 g2 g3 g where
    s: "toggleFlag (freshGlobals packedConfig) 0 1 = Some g1" "toggleFlag g1 1 0 = Some g2"
      "toggleFlag g2 1 1 = Some g3" "handleCellClick sampleEnv g3 0 0 = Some g"
      "reachable g" "\<not> isGameOver g" "hintsUsed g = 0" "handleHint sampleEnv g = Some g"
    by blast
  from s(8) s(7) have "map_option hintsUsed (handleHint sampleEnv g) = Some 0" by simp
  with s have "\<exists>g1 g2 g3 g.
      toggleFlag (freshGlobals packedConfig) 0 1 = Some g1 \<and> toggleFlag g1 1 0 = Some g2 \<and>
      toggleFlag g2 1 1 = Some g3 \<and> handleCellClick sampleEnv g3 0 0 = Some g \<and>
      reachable g \<and> \<not> isGameOver g \<and> hintsUsed g = 0 \<and>
      map_option hintsUsed (handleHint sampleEnv g) = Some 0"
    by blast
  with a show ?thesis by blast
qed

text \<open>
  C4, amended.  A hint invocation in a running session increments \<open>hintsUsed\<close> by exactly
  one, except when the mines are placed and no closed, unflagged, safe cell is left: then
  the hint reports the exhausted pool and changes nothing.  In a terminal session it
  changes nothing either.  The counter never decreases, reveals, flag operations and the
  timer leave it alone, and only a new game resets it to 0.  In a reachable session the
  hint always returns normally.
\<close>

theorem hintsUsed_counts_hints:
  "(\<forall>g'. \<not> isGameOver g \<and> handleHint env g = Some g' \<and>
         \<not> (minesPlaced g \<and> findHintCell env g = Some None) \<longrightarrow>
      hintsUsed g' = hintsUsed g + 1) \<and>
   (\<not> isGameOver g \<and> minesPlaced g \<and> findHintCell env g = Some None \<longrightarrow>
      handleHint env g = Some g) \<and>
   (wfBoard (config g) (board g) \<longrightarrow>
      (findHintCell env g = Some None \<longleftrightarrow> countCells hintable (board g) = 0)) \<and>
   (isGameOver g \<longrightarrow> handleHint env g = Some g) \<and>
   (reachable g \<longrightarrow> handleHint env g \<noteq> None) \<and>
   (\<forall>g'. handleHint env g = Some g' \<longrightarrow> hintsUsed g \<le> hintsUsed g') \<and>
   (\<forall>g'. handleCellClick env g row col = Some g' \<longrightarrow> hintsUsed g' = hintsUsed g) \<and>
   (\<forall>g'. toggleFlag g row col = Some g' \<longrightarrow> hintsUsed g' = hintsUsed g) \<and>
   hintsUsed (resetTimerOnly env g) = hintsUsed g \<and>
   hintsUsed (updateTimer env g) = hintsUsed g \<and>
   hintsUsed (startNewGame env cfg g) = 0 \<and>
   hintsUsed (createInitialState cfg) = 0"
proof -
  have 1: "\<forall>g'. \<not> isGameOver g \<and> handleHint env g = Some g' \<and>
         \<not> (minesPlaced g \<and> findHintCell env g = Some None) \<longrightarrow>
      hintsUsed g' = hintsUsed g + 1"
    using handleHint_counts by blast
  have 2: "\<not> isGameOver g \<and> minesPlaced g \<and> findHintCell env g = Some None \<longrightarrow>
      handleHint env g = Some g"
    using handleHint_exhausted by blast
  have 3: "wfBoard (config g) (board g) \<longrightarrow>
      (findHintCell env g = Some None \<longleftrightarrow> countCells hintable (board g) = 0)"
    using findHintCell_result by blast
  have 4: "isGameOver g \<longrightarrow> handleHint env g = Some g"
    by (simp add: handleHint_def)
  have 5: "reachable g \<longrightarrow> handleHint env g \<noteq> None"
    using handleHint_total reachable_sessionInv by blast
  have 6: "\<forall>g'. handleHint env g = Some g' \<longrightarrow> hintsUsed g \<le> hintsUsed g'"
    using handleHint_monotone by blast
  have 7: "\<forall>g'. handleCellClick env g row col = Some g' \<longrightarrow> hintsUsed g' = hintsUsed g"
    using keepsCounters_click by (auto simp: keepsCounters_def)
  have 8: "\<forall>g'. toggleFlag g row col = Some g' \<longrightarrow> hintsUsed g' = hintsUsed g"
    using toggleFlag_hintsUsed by blast
  have 9: "hintsUsed (resetTimerOnly env g) = hintsUsed g \<and>
   hintsUsed (updateTimer env g) = hintsUsed g \<and>
   hintsUsed (startNewGame env cfg g) = 0 \<and>
   hintsUsed (createInitialState cfg) = 0"
    by (simp add: createInitialState_def)
  from 1 2 3 4 5 6 7 8 9 show ?thesis by blast
qed

theorem hintsUsed_counts_hints_witness:
  "(\<exists>g'. handleHint sampleEnv (freshGlobals customConfig) = Some g' \<and> hintsUsed g' = 1) \<and>
   handleHint sampleEnv hintlessState = Some hintlessState \<and>
   handleHint sampleEnv ((freshGlobals customConfig)\<lparr>isGameOver := True\<rparr>)
     = Some ((freshGlobals customConfig)\<lparr>isGameOver := True\<rparr>) \<and>
   (\<exists>g'. handleCellClick sampleEnv (freshGlobals customConfig) 0 0 = Some g' \<and> hintsUsed g' = 0) \<and>
   (\<exists>g'. toggleFlag (freshGlobals customConfig) 5 5 = Some g' \<and> hintsUsed g' = 0)"
proof -
  let ?f = "freshGlobals customConfig"
  note T = hintsUsed_counts_hints
  have r: "reachable ?f" by (rule reachable_fresh[OF validConfig_custom])
  have inv: "sessionInv ?f" by (rule reachable_sessionInv[OF r])
  from T[of ?f sampleEnv 0 0 customConfig] r obtain g1 where g1: "handleHint sampleEnv ?f = Some g1"
    by auto
  have 1: "\<exists>g'. handleHint sampleEnv ?f = Some g' \<and> hintsUsed g' = 1"
    using T[of ?f sampleEnv 0 0 customConfig] g1 by auto
  have "findHintCell sampleEnv hintlessState = Some None"
    using T[of hintlessState sampleEnv 0 0 customConfig] wf_hintlessState hintlessState_pool by blast
  then have 2: "handleHint sampleEnv hintlessState = Some hintlessState"
    using T[of hintlessState sampleEnv 0 0 customConfig] hintlessState_fields by blast
  have 3: "handleHint sampleEnv (?f\<lparr>isGameOver := True\<rparr>) = Some (?f\<lparr>isGameOver := True\<rparr>)"
    using T[of "?f\<lparr>isGameOver := True\<rparr>" sampleEnv 0 0 customConfig] by simp
  have "cellAt (board ?f) 0 0 \<noteq> None"
    by (simp add: cellAt_createEmptyBoard customConfig_def)
  from handleCellClick_total[OF inv this, of sampleEnv] obtain g2 where
    g2: "handleCellClick sampleEnv ?f 0 0 = Some g2" by auto
  have 4: "\<exists>g'. handleCellClick sampleEnv ?f 0 0 = Some g' \<and> hintsUsed g' = 0"
    using T[of ?f sampleEnv 0 0 customConfig] g2 by auto
  have c55: "cellAt (board ?f) 5 5 =
      Some \<lparr>isMine = False, isOpen = False, isFlagged = False, adjacent = 0, isWrongFlag = False\<rparr>"
    by (simp add: cellAt_createEmptyBoard customConfig_def)
  have ng: "\<not> isGameOver ?f" by simp
  from toggleFlag_closed[OF ng c55] obtain g3 where g3: "toggleFlag ?f 5 5 = Some g3"
    by simp
  have 5: "\<exists>g'. toggleFlag ?f 5 5 = Some g' \<and> hintsUsed g' = 0"
    using T[of ?f sampleEnv 5 5 customConfig] g3 by auto
  from 1 2 3 4 5 show ?thesis by blast
qed

section \<open>Leaderboard load\<close>





















section \<open>Terminal sessions\<close>

text \<open>
  C6.  Once the session is terminal (\<open>isGameOver\<close>, won or lost), a reveal
  (\<open>handleCellClick\<close>) and a flag operation (\<open>toggleFlag\<close>) at any coordinates return
  normally and leave every module variable as it was: board, flags, openCount, hintsUsed,
  didWin, elapsed and all the rest.
\<close>

theorem terminal_operations_are_noops:
  assumes "isGameOver g"
  shows "handleCellClick env g row col = Some g \<and> toggleFlag g row col = Some g"
  using assms by (simp add: handleCellClick_def toggleFlag_def)

theorem terminal_operations_are_noops_witness:
  "isGameOver ((freshGlobals customConfig)\<lparr>isGameOver := True\<rparr>) \<and>
   handleCellClick sampleEnv ((freshGlobals customConfig)\<lparr>isGameOver := True\<rparr>) 2 3
     = Some ((freshGlobals customConfig)\<lparr>isGameOver := True\<rparr>) \<and>
   toggleFlag ((freshGlobals customConfig)\<lparr>isGameOver := True\<rparr>) 2 3
     = Some ((freshGlobals customConfig)\<lparr>isGameOver := True\<rparr>)"
  using terminal_operations_are_noops
    [of "(freshGlobals customConfig)\<lparr>isGameOver := True\<rparr>" sampleEnv 2 3]
  by simp

end
